theory Spec2Isabelle
  imports Main "HOL-Library.AList" "HOL-Library.Multiset"
begin

section \<open>Data model (types/index.ts)\<close>

text \<open>
  A JavaScript number as the service meets it: an integer that a double represents,
  \<open>NaN\<close>, or an infinity. The ids and timestamps of posts and comments are the integers
  that \<open>JSON.parse\<close> and \<open>Date.now()\<close> delivered.
\<close>

datatype jsnum = NaN | Num int | Infinity | NegInfinity

record post =
  post_id :: int
  userid :: int
  content :: string
  timestamp :: "int option"

record comment =
  comment_id :: int
  postid :: int
  comment_content :: string

record TopUser =
  user_id :: string
  name :: "string option"
  postCount :: nat

text \<open>
  \<open>Record<string, string>\<close>: the object as \<open>Object.keys\<close> iterates it, one pair per
  key. A \<open>Map\<close> is an association list too: \<open>has\<close> and \<open>get\<close> read it, \<open>set\<close> is
  \<open>AList.update\<close> (an existing key keeps its place, a new key goes to the end).
  \<open>Map\<close> compares keys with SameValueZero, under which \<open>NaN\<close> equals \<open>NaN\<close>, as HOL
  equality on \<open>jsnum\<close> does.
\<close>

type_synonym users = "(string \<times> string) list"

definition has :: "('k \<times> 'v) list \<Rightarrow> 'k \<Rightarrow> bool" where
  "has m k = (map_of m k \<noteq> None)"

datatype request = ReqUsers | ReqPosts string | ReqComments int | ReqAllPosts

datatype error = FetchFailure request

text \<open>
  The upstream during one operation: what each URL answers, \<open>None\<close> when the request
  fails (\<open>makeAuthorizedRequest\<close> throws). \<open>/users\<close>, \<open>/users/{id}/posts\<close>,
  \<open>/posts/{id}/comments\<close>, and \<open>/posts\<close>, whose body \<open>updateCache\<close> ignores. Requests
  sent together are answered in any order: of two answers the one with the smaller rank
  arrives first, and answers of equal rank arrive in the order of their requests.
\<close>

record remote =
  fetchUsers :: "users option"
  fetchPosts :: "string \<Rightarrow> post list option"
  fetchComments :: "int \<Rightarrow> comment list option"
  fetchAllPosts :: bool
  postsArrival :: "string \<Rightarrow> nat"
  commentsArrival :: "int \<Rightarrow> nat"

record service =
  baseUrl :: string
  usersCache :: users
  postsCache :: "(jsnum \<times> post list) list"
  commentsCache :: "(int \<times> comment list) list"
  userPostCountCache :: "(string \<times> nat) list"
  postCommentCountCache :: "(int \<times> nat) list"
  allPostsCache :: "post list"
  lastUsersFetch :: int
  lastPostsFetch :: "(jsnum \<times> int) list"
  lastCommentsFetch :: "(int \<times> int) list"

definition cacheTTL :: int where
  "cacheTTL = 30 * 1000"

text \<open>The service as its constructor leaves it, with the default URL.\<close>

definition new_service :: service where
  "new_service = \<lparr> baseUrl = ''http://20.244.56.144/test'', usersCache = [], postsCache = [],
     commentsCache = [], userPostCountCache = [], postCommentCountCache = [],
     allPostsCache = [], lastUsersFetch = 0, lastPostsFetch = [], lastCommentsFetch = [] \<rparr>"

section \<open>Built-ins\<close>

text \<open>
  \<open>parseInt(s, 10)\<close>: leading white space is skipped, then an optional sign, then the
  longest run of decimal digits is read; no digit gives \<open>NaN\<close>. A \<open>char\<close> is a code
  unit below U+0100, of which seven are white space. The integer read becomes a double:
  up to 53 significant bits are exact, more are rounded to the nearest double, ties to the
  even one, and what rounds to \<open>2^1024\<close> is infinite. (Beyond 20 significant digits
  ECMAScript lets an implementation read the further digits as 0; the digits are read as
  they are here.)
\<close>

definition isWhiteSpace :: "char \<Rightarrow> bool" where
  "isWhiteSpace c =
     (c \<in> set [CHR '' '', CHR 0x09, CHR 0x0A, CHR 0x0B, CHR 0x0C, CHR 0x0D, CHR 0xA0])"

definition isDigit :: "char \<Rightarrow> bool" where
  "isDigit c = (c \<in> set ''0123456789'')"

definition digitValue :: "char \<Rightarrow> int" where
  "digitValue c = of_char c - 48"

definition digitsValue :: "string \<Rightarrow> int" where
  "digitsValue ds = foldl (\<lambda>acc c. acc * 10 + digitValue c) 0 ds"

function bitLength :: "int \<Rightarrow> nat" where
  "bitLength n = (if n \<le> 0 then 0 else Suc (bitLength (n div 2)))"
  by pat_completeness auto
termination
  by (relation "measure nat") auto

declare bitLength.simps [simp del]

definition roundToDouble :: "int \<Rightarrow> int" where
  "roundToDouble n =
     (if n < 2 ^ 53 then n
      else (let e = bitLength n - 53; q = n div 2 ^ e; rest = n mod 2 ^ e; half = 2 ^ (e - 1)
            in if half < rest \<or> (rest = half \<and> odd q) then (q + 1) * 2 ^ e else q * 2 ^ e))"

definition toNumber :: "bool \<Rightarrow> int \<Rightarrow> jsnum" where
  "toNumber neg n =
     (let m = roundToDouble n in
      if 2 ^ 1024 \<le> m then (if neg then NegInfinity else Infinity)
      else Num (if neg then - m else m))"

definition parseInt10 :: "string \<Rightarrow> jsnum" where
  "parseInt10 str =
     (let s1 = dropWhile isWhiteSpace str;
          neg = (case s1 of [] \<Rightarrow> False | c # cs \<Rightarrow> c = CHR ''-'');
          s2 = (case s1 of [] \<Rightarrow> [] | c # cs \<Rightarrow> if c = CHR ''-'' \<or> c = CHR ''+'' then cs else s1);
          ds = takeWhile isDigit s2
      in if ds = [] then NaN else toNumber neg (digitsValue ds))"

text \<open>
  \<open>xs.slice(0, end)\<close>: \<open>NaN\<close> counts as 0, a negative end counts from the back, an end
  beyond the length stops at the length.
\<close>

definition slice0 :: "jsnum \<Rightarrow> 'a list \<Rightarrow> 'a list" where
  "slice0 end xs =
     (case end of
        NaN \<Rightarrow> []
      | Num n \<Rightarrow> if n < 0 then take (nat (int (length xs) + n)) xs else take (nat n) xs
      | Infinity \<Rightarrow> xs
      | NegInfinity \<Rightarrow> [])"

text \<open>\<open>m.set(k, v)\<close> for every pair of a list, in its order.\<close>

definition setAll :: "('k \<times> 'v) list \<Rightarrow> ('k \<times> 'v) list \<Rightarrow> ('k \<times> 'v) list" where
  "setAll m kvs = foldl (\<lambda>m (k, v). AList.update k v m) m kvs"

text \<open>
  \<open>xs.sort(cmp)\<close>, which ECMAScript requires to be stable: an element moves in front of
  another only when the comparator puts it strictly first. For a comparator that orders by
  a key, as both comparators of the service do, the stable result is unique.
\<close>

fun insertBy :: "('a \<Rightarrow> 'a \<Rightarrow> int) \<Rightarrow> 'a \<Rightarrow> 'a list \<Rightarrow> 'a list" where
  "insertBy cmp x [] = [x]"
| "insertBy cmp x (y # ys) = (if cmp x y \<le> 0 then x # y # ys else y # insertBy cmp x ys)"

definition sortBy :: "('a \<Rightarrow> 'a \<Rightarrow> int) \<Rightarrow> 'a list \<Rightarrow> 'a list" where
  "sortBy cmp xs = foldr (insertBy cmp) xs []"

section \<open>Cache lookups (services/dataService.ts)\<close>

text \<open>
  Every lookup returns its result (\<open>Inl\<close> when it throws), the service afterwards and the
  requests it sent to the upstream, in order. The time is what \<open>Date.now()\<close> returned.
\<close>

type_synonym 'a outcome = "(error + 'a) \<times> service \<times> request list"

definition getUsers :: "service \<Rightarrow> int \<Rightarrow> remote \<Rightarrow> users outcome" where
  "getUsers s currentTime r =
     (if usersCache s \<noteq> [] \<and> currentTime - lastUsersFetch s < cacheTTL
      then (Inr (usersCache s), s, [])
      else (case fetchUsers r of
              Some us \<Rightarrow>
                (Inr us, s\<lparr>usersCache := us, lastUsersFetch := currentTime\<rparr>, [ReqUsers])
            | None \<Rightarrow>
                if usersCache s \<noteq> [] then (Inr (usersCache s), s, [ReqUsers])
                else (Inl (FetchFailure ReqUsers), s, [ReqUsers])))"

text \<open>
  \<open>getUserPosts\<close> runs in two parts, split at its \<open>await\<close>: the freshness test, which
  runs when the call is made, and the code after the request has settled, which runs
  later, on the service as it is then.
\<close>

definition getUserPosts_fresh :: "service \<Rightarrow> int \<Rightarrow> string \<Rightarrow> post list option" where
  "getUserPosts_fresh s currentTime userId =
     (let userIdNum = parseInt10 userId in
      if has (postsCache s) userIdNum \<and> has (lastPostsFetch s) userIdNum \<and>
         currentTime - (case map_of (lastPostsFetch s) userIdNum of Some t \<Rightarrow> t | None \<Rightarrow> 0)
           < cacheTTL
      then Some (case map_of (postsCache s) userIdNum of Some ps \<Rightarrow> ps | None \<Rightarrow> [])
      else None)"

definition getUserPosts_settle ::
    "service \<Rightarrow> int \<Rightarrow> string \<Rightarrow> post list option \<Rightarrow> (error + post list) \<times> service" where
  "getUserPosts_settle s currentTime userId response =
     (let userIdNum = parseInt10 userId in
      case response of
        Some posts \<Rightarrow>
          (let postsWithTimestamp = map (\<lambda>p. p\<lparr>timestamp := Some currentTime\<rparr>) posts in
           (Inr postsWithTimestamp,
            s\<lparr>postsCache := AList.update userIdNum postsWithTimestamp (postsCache s),
              lastPostsFetch := AList.update userIdNum currentTime (lastPostsFetch s),
              userPostCountCache :=
                AList.update userId (length postsWithTimestamp) (userPostCountCache s),
              allPostsCache :=
                filter (\<lambda>p. Num (userid p) \<noteq> userIdNum) (allPostsCache s) @ postsWithTimestamp\<rparr>))
      | None \<Rightarrow>
          if has (postsCache s) userIdNum
          then (Inr (case map_of (postsCache s) userIdNum of Some ps \<Rightarrow> ps | None \<Rightarrow> []), s)
          else (Inl (FetchFailure (ReqPosts userId)), s))"

definition getUserPosts :: "service \<Rightarrow> int \<Rightarrow> string \<Rightarrow> remote \<Rightarrow> post list outcome" where
  "getUserPosts s currentTime userId r =
     (case getUserPosts_fresh s currentTime userId of
        Some ps \<Rightarrow> (Inr ps, s, [])
      | None \<Rightarrow>
          (case getUserPosts_settle s currentTime userId (fetchPosts r userId) of
             (res, s') \<Rightarrow> (res, s', [ReqPosts userId])))"

definition getPostComments_fresh :: "service \<Rightarrow> int \<Rightarrow> int \<Rightarrow> comment list option" where
  "getPostComments_fresh s currentTime postId =
     (if has (commentsCache s) postId \<and> has (lastCommentsFetch s) postId \<and>
         currentTime - (case map_of (lastCommentsFetch s) postId of Some t \<Rightarrow> t | None \<Rightarrow> 0)
           < cacheTTL
      then Some (case map_of (commentsCache s) postId of Some cs \<Rightarrow> cs | None \<Rightarrow> [])
      else None)"

definition getPostComments_settle ::
    "service \<Rightarrow> int \<Rightarrow> int \<Rightarrow> comment list option \<Rightarrow> (error + comment list) \<times> service" where
  "getPostComments_settle s currentTime postId response =
     (case response of
        Some comments \<Rightarrow>
          (Inr comments,
           s\<lparr>commentsCache := AList.update postId comments (commentsCache s),
             lastCommentsFetch := AList.update postId currentTime (lastCommentsFetch s),
             postCommentCountCache :=
               AList.update postId (length comments) (postCommentCountCache s)\<rparr>)
      | None \<Rightarrow>
          if has (commentsCache s) postId
          then (Inr (case map_of (commentsCache s) postId of Some cs \<Rightarrow> cs | None \<Rightarrow> []), s)
          else (Inl (FetchFailure (ReqComments postId)), s))"

definition getPostComments :: "service \<Rightarrow> int \<Rightarrow> int \<Rightarrow> remote \<Rightarrow> comment list outcome" where
  "getPostComments s currentTime postId r =
     (case getPostComments_fresh s currentTime postId of
        Some cs \<Rightarrow> (Inr cs, s, [])
      | None \<Rightarrow>
          (case getPostComments_settle s currentTime postId (fetchComments r postId) of
             (res, s') \<Rightarrow> (res, s', [ReqComments postId])))"

section \<open>Concurrent lookups\<close>

text \<open>
  \<open>Promise.all(ids.map(id => this.getUserPosts(id)))\<close>: every call runs up to its
  \<open>await\<close> when it is made, so all freshness tests see the same service and none of them
  changes it. A call that found fresh posts has returned them by then; the requests of
  the others settle afterwards, one by one as their answers arrive, each on the service
  the earlier ones left. The result lists the calls with what they returned, in the order
  in which they completed.
\<close>

fun settlePosts ::
    "service \<Rightarrow> int \<Rightarrow> string list \<Rightarrow> remote \<Rightarrow>
       (string \<times> (error + post list)) list \<times> service" where
  "settlePosts s currentTime [] r = ([], s)"
| "settlePosts s currentTime (userId # rest) r =
     (case getUserPosts_settle s currentTime userId (fetchPosts r userId) of
        (res, s1) \<Rightarrow>
          (case settlePosts s1 currentTime rest r of
             (out, s') \<Rightarrow> ((userId, res) # out, s')))"

definition freshPosts ::
    "service \<Rightarrow> int \<Rightarrow> string list \<Rightarrow> (string \<times> (error + post list)) list" where
  "freshPosts s currentTime userIds =
     concat (map (\<lambda>userId. case getUserPosts_fresh s currentTime userId of
                              Some ps \<Rightarrow> [(userId, Inr ps)] | None \<Rightarrow> []) userIds)"

definition pendingPosts :: "service \<Rightarrow> int \<Rightarrow> string list \<Rightarrow> string list" where
  "pendingPosts s currentTime userIds =
     filter (\<lambda>userId. getUserPosts_fresh s currentTime userId = None) userIds"

definition allUserPosts ::
    "service \<Rightarrow> int \<Rightarrow> string list \<Rightarrow> remote \<Rightarrow>
       (string \<times> (error + post list)) list \<times> service \<times> request list" where
  "allUserPosts s currentTime userIds r =
     (case settlePosts s currentTime
             (sort_key (postsArrival r) (pendingPosts s currentTime userIds)) r of
        (settled, s') \<Rightarrow>
          (freshPosts s currentTime userIds @ settled, s',
           map ReqPosts (pendingPosts s currentTime userIds)))"

section \<open>Top users\<close>

text \<open>
  Lines 153 to 186 of \<open>getTopUsers\<close>: the local \<open>postCounts\<close> map. Each mapped call
  records the length of what its lookup returned when it completes, and 0 when the lookup
  throws. With a non-empty \<open>userPostCountCache\<close> only the ids it lacks are looked up, and
  its entries are copied over afterwards.
\<close>

definition recordPostCounts ::
    "(string \<times> (error + post list)) list \<Rightarrow> (string \<times> nat) list \<Rightarrow> (string \<times> nat) list" where
  "recordPostCounts results postCounts =
     foldl (\<lambda>m (userId, res).
              AList.update userId (case res of Inr posts \<Rightarrow> length posts | Inl e \<Rightarrow> 0) m)
       postCounts results"

definition topUsers_postCounts ::
    "service \<Rightarrow> int \<Rightarrow> string list \<Rightarrow> remote \<Rightarrow> (string \<times> nat) list \<times> service \<times> request list" where
  "topUsers_postCounts s currentTime userIds r =
     (if userPostCountCache s \<noteq> []
      then (let missingUsers = filter (\<lambda>userId. \<not> has (userPostCountCache s) userId) userIds in
            case allUserPosts s currentTime missingUsers r of
              (results, s', reqs) \<Rightarrow>
                (setAll (recordPostCounts results []) (userPostCountCache s'), s', reqs))
      else (case allUserPosts s currentTime userIds r of
              (results, s', reqs) \<Rightarrow> (recordPostCounts results [], s', reqs)))"

text \<open>Lines 189 to 194: one entry per key of the directory, in its order.\<close>

definition topUsers_entries :: "users \<Rightarrow> (string \<times> nat) list \<Rightarrow> TopUser list" where
  "topUsers_entries us postCounts =
     map (\<lambda>userId. \<lparr> user_id = userId, name = map_of us userId,
                     postCount = (case map_of postCounts userId of Some c \<Rightarrow> c | None \<Rightarrow> 0) \<rparr>)
       (map fst us)"

definition byPostCount :: "TopUser \<Rightarrow> TopUser \<Rightarrow> int" where
  "byPostCount a b = int (postCount b) - int (postCount a)"

text \<open>
  \<open>getTopUsers(limit = 5)\<close>: \<open>None\<close> is the omitted argument. The first time is that of
  \<open>getUsers\<close>, the second that of the \<open>getUserPosts\<close> calls.
\<close>

definition getTopUsers ::
    "service \<Rightarrow> int \<Rightarrow> int \<Rightarrow> jsnum option \<Rightarrow> remote \<Rightarrow> TopUser list outcome" where
  "getTopUsers s t0 t1 limit r =
     (case getUsers s t0 r of
        (Inl e, s1, reqs1) \<Rightarrow> (Inl e, s1, reqs1)
      | (Inr us, s1, reqs1) \<Rightarrow>
          (case topUsers_postCounts s1 t1 (map fst us) r of
             (postCounts, s2, reqs2) \<Rightarrow>
               (Inr (slice0 (case limit of None \<Rightarrow> Num 5 | Some l \<Rightarrow> l)
                       (sortBy byPostCount (topUsers_entries us postCounts))),
                s2, reqs1 @ reqs2)))"

section \<open>Popular and latest posts\<close>

text \<open>
  Lines 207 to 209 and 259 to 261: only an empty \<open>allPostsCache\<close> makes the service look
  up the posts of the directory's users. \<open>Promise.all\<close> rejects with the failure of the
  lookup that is the first to fail; the other requests still settle and update the
  service, which is returned as they leave it.
\<close>

definition firstFailure :: "(string \<times> (error + post list)) list \<Rightarrow> error option" where
  "firstFailure results =
     (case filter (\<lambda>(userId, res). isl res) results of
        [] \<Rightarrow> None
      | (userId, res) # rest \<Rightarrow> (case res of Inl e \<Rightarrow> Some e | Inr ps \<Rightarrow> None))"

definition ensureAllPosts :: "service \<Rightarrow> int \<Rightarrow> string list \<Rightarrow> remote \<Rightarrow> unit outcome" where
  "ensureAllPosts s currentTime userIds r =
     (if allPostsCache s = []
      then (case allUserPosts s currentTime userIds r of
              (results, s', reqs) \<Rightarrow>
                (case firstFailure results of
                   Some e \<Rightarrow> (Inl e, s', reqs)
                 | None \<Rightarrow> (Inr (), s', reqs)))
      else (Inr (), s, []))"

text \<open>
  One batch of lines 221 to 234. When the mapped call is made it either finds a cached
  count (\<open>Inl\<close>) and records it at once, or calls \<open>getPostComments\<close>, which finds fresh
  comments or sends a request (\<open>Inr None\<close>). The calls that found fresh comments record
  their number next; the requests settle afterwards as their answers arrive. Whatever the
  lookup throws is caught and recorded as 0.
\<close>

definition startCount :: "service \<Rightarrow> int \<Rightarrow> post \<Rightarrow> nat + comment list option" where
  "startCount s currentTime p =
     (if has (postCommentCountCache s) (post_id p)
      then Inl (case map_of (postCommentCountCache s) (post_id p) of Some c \<Rightarrow> c | None \<Rightarrow> 0)
      else Inr (getPostComments_fresh s currentTime (post_id p)))"

fun settleCounts ::
    "service \<Rightarrow> int \<Rightarrow> post list \<Rightarrow> remote \<Rightarrow> (int \<times> nat) list \<Rightarrow>
       (int \<times> nat) list \<times> service" where
  "settleCounts s currentTime [] r counts = (counts, s)"
| "settleCounts s currentTime (p # rest) r counts =
     (case getPostComments_settle s currentTime (post_id p) (fetchComments r (post_id p)) of
        (Inr comments, s') \<Rightarrow>
          settleCounts s' currentTime rest r (AList.update (post_id p) (length comments) counts)
      | (Inl e, s') \<Rightarrow>
          settleCounts s' currentTime rest r (AList.update (post_id p) 0 counts))"

definition cachedCounts :: "service \<Rightarrow> int \<Rightarrow> post list \<Rightarrow> (int \<times> nat) list" where
  "cachedCounts s currentTime batch =
     concat (map (\<lambda>p. case startCount s currentTime p of
                         Inl c \<Rightarrow> [(post_id p, c)] | Inr found \<Rightarrow> []) batch)"

definition freshCounts :: "service \<Rightarrow> int \<Rightarrow> post list \<Rightarrow> (int \<times> nat) list" where
  "freshCounts s currentTime batch =
     concat (map (\<lambda>p. case startCount s currentTime p of
                         Inl c \<Rightarrow> []
                       | Inr None \<Rightarrow> []
                       | Inr (Some comments) \<Rightarrow> [(post_id p, length comments)]) batch)"

definition pendingCounts :: "service \<Rightarrow> int \<Rightarrow> post list \<Rightarrow> post list" where
  "pendingCounts s currentTime batch = filter (\<lambda>p. startCount s currentTime p = Inr None) batch"

definition processBatch ::
    "service \<Rightarrow> int \<Rightarrow> post list \<Rightarrow> remote \<Rightarrow> (int \<times> nat) list \<Rightarrow>
       (int \<times> nat) list \<times> service \<times> request list" where
  "processBatch s currentTime batch r counts =
     (case settleCounts s currentTime
             (sort_key (\<lambda>p. commentsArrival r (post_id p)) (pendingCounts s currentTime batch)) r
             (setAll (setAll counts (cachedCounts s currentTime batch))
                (freshCounts s currentTime batch)) of
        (counts', s') \<Rightarrow>
          (counts', s', map (\<lambda>p. ReqComments (post_id p)) (pendingCounts s currentTime batch)))"

text \<open>
  The loop of line 219, \<open>for (i = 0; i < allPosts.length; i += batchSize)\<close> with
  \<open>batchSize = 10\<close>; \<open>clock i\<close> is the time at which the batch starting at \<open>i\<close> is
  sent.
\<close>

function countComments ::
    "nat \<Rightarrow> post list \<Rightarrow> (nat \<Rightarrow> int) \<Rightarrow> remote \<Rightarrow> service \<Rightarrow> (int \<times> nat) list \<Rightarrow>
       (int \<times> nat) list \<times> service \<times> request list" where
  "countComments i allPosts clock r s counts =
     (if i < length allPosts
      then (case processBatch s (clock i) (take 10 (drop i allPosts)) r counts of
              (counts', s', reqs) \<Rightarrow>
                (case countComments (i + 10) allPosts clock r s' counts' of
                   (counts'', s'', reqs') \<Rightarrow> (counts'', s'', reqs @ reqs')))
      else (counts, s, []))"
  by pat_completeness auto
termination
  by (relation "measure (\<lambda>(i, allPosts, clock, r, s, counts). length allPosts - i)") auto

declare countComments.simps [simp del]

text \<open>Lines 238 to 243.\<close>

definition maxCommentCount :: "(int \<times> nat) list \<Rightarrow> nat" where
  "maxCommentCount counts = foldl (\<lambda>m c. if c > m then c else m) 0 (map snd counts)"

definition getPopularPosts ::
    "service \<Rightarrow> int \<Rightarrow> int \<Rightarrow> (nat \<Rightarrow> int) \<Rightarrow> remote \<Rightarrow> post list outcome" where
  "getPopularPosts s t0 t1 clock r =
     (case getUsers s t0 r of
        (Inl e, s1, reqs1) \<Rightarrow> (Inl e, s1, reqs1)
      | (Inr us, s1, reqs1) \<Rightarrow>
          (case ensureAllPosts s1 t1 (map fst us) r of
             (Inl e, s2, reqs2) \<Rightarrow> (Inl e, s2, reqs1 @ reqs2)
           | (Inr u, s2, reqs2) \<Rightarrow>
               (case countComments 0 (allPostsCache s2) clock r s2 [] of
                  (postCommentCounts, s3, reqs3) \<Rightarrow>
                    (Inr (filter (\<lambda>p. map_of postCommentCounts (post_id p) =
                                         Some (maxCommentCount postCommentCounts))
                            (allPostsCache s3)),
                     s3, reqs1 @ reqs2 @ reqs3))))"

definition timestampOr0 :: "post \<Rightarrow> int" where
  "timestampOr0 p = (case timestamp p of Some t \<Rightarrow> t | None \<Rightarrow> 0)"

definition byTimestamp :: "post \<Rightarrow> post \<Rightarrow> int" where
  "byTimestamp a b = timestampOr0 b - timestampOr0 a"

definition getLatestPosts ::
    "service \<Rightarrow> int \<Rightarrow> int \<Rightarrow> jsnum option \<Rightarrow> remote \<Rightarrow> post list outcome" where
  "getLatestPosts s t0 t1 limit r =
     (case getUsers s t0 r of
        (Inl e, s1, reqs1) \<Rightarrow> (Inl e, s1, reqs1)
      | (Inr us, s1, reqs1) \<Rightarrow>
          (case ensureAllPosts s1 t1 (map fst us) r of
             (Inl e, s2, reqs2) \<Rightarrow> (Inl e, s2, reqs1 @ reqs2)
           | (Inr u, s2, reqs2) \<Rightarrow>
               (Inr (slice0 (case limit of None \<Rightarrow> Num 5 | Some l \<Rightarrow> l)
                       (sortBy byTimestamp (allPostsCache s2))),
                s2, reqs1 @ reqs2)))"

section \<open>updateCache\<close>

text \<open>
  Two requests whose answers are dropped, inside a \<open>try\<close> that catches everything: the
  first failure skips what follows. An empty \<open>baseUrl\<close> returns before the first request.
\<close>

definition updateCache :: "service \<Rightarrow> remote \<Rightarrow> unit outcome" where
  "updateCache s r =
     (if baseUrl s = [] then (Inr (), s, [])
      else if fetchUsers r = None then (Inr (), s, [ReqUsers])
      else if \<not> fetchAllPosts r then (Inr (), s, [ReqUsers, ReqAllPosts])
      else (Inr (), s, [ReqUsers, ReqAllPosts]))"

section \<open>Controller (controllers/analyticsController.ts)\<close>

datatype 'a response = Status200 'a | Status500

text \<open>
  \<open>req.query.limit ? parseInt(req.query.limit, 10) : 5\<close>, the query parameter being absent
  (\<open>None\<close>) or a string, of which the empty one is falsy.
\<close>

definition queryLimit :: "string option \<Rightarrow> jsnum" where
  "queryLimit q = (case q of None \<Rightarrow> Num 5 | Some str \<Rightarrow> if str = [] then Num 5 else parseInt10 str)"

definition getTopUsers_controller ::
    "service \<Rightarrow> int \<Rightarrow> int \<Rightarrow> string option \<Rightarrow> remote \<Rightarrow>
       TopUser list response \<times> service \<times> request list" where
  "getTopUsers_controller s t0 t1 q r =
     (case getTopUsers s t0 t1 (Some (queryLimit q)) r of
        (Inr topUsers, s', reqs) \<Rightarrow> (Status200 topUsers, s', reqs)
      | (Inl e, s', reqs) \<Rightarrow> (Status500, s', reqs))"

section \<open>Concrete upstreams and services\<close>

definition upstreamDown :: remote where
  "upstreamDown = \<lparr> fetchUsers = None, fetchPosts = (\<lambda>userId. None),
     fetchComments = (\<lambda>postId. None), fetchAllPosts = False,
     postsArrival = (\<lambda>userId. 0), commentsArrival = (\<lambda>postId. 0) \<rparr>"

definition emptyDirectory :: remote where
  "emptyDirectory = \<lparr> fetchUsers = Some [], fetchPosts = (\<lambda>userId. None),
     fetchComments = (\<lambda>postId. None), fetchAllPosts = True,
     postsArrival = (\<lambda>userId. 0), commentsArrival = (\<lambda>postId. 0) \<rparr>"

definition post7 :: post where
  "post7 = \<lparr> post_id = 7, userid = 1, content = ''hello'', timestamp = Some 1000 \<rparr>"

definition comment3 :: comment where
  "comment3 = \<lparr> comment_id = 3, postid = 7, comment_content = ''first'' \<rparr>"

text \<open>A service that stored one user, her post and its comment at time 1000.\<close>

definition warmService :: service where
  "warmService = \<lparr> baseUrl = ''http://20.244.56.144/test'', usersCache = [(''1'', ''Ann'')],
     postsCache = [(Num 1, [post7])], commentsCache = [(7, [comment3])],
     userPostCountCache = [(''1'', 1)], postCommentCountCache = [(7, 1)],
     allPostsCache = [post7], lastUsersFetch = 1000, lastPostsFetch = [(Num 1, 1000)],
     lastCommentsFetch = [(7, 1000)] \<rparr>"

definition postsOf :: "int \<Rightarrow> int \<Rightarrow> nat \<Rightarrow> post list" where
  "postsOf owner first n =
     map (\<lambda>i. \<lparr> post_id = first + int i, userid = owner, content = [], timestamp = None \<rparr>) [0..<n]"

definition abcDirectory :: users where
  "abcDirectory = [(''A'', ''Alice''), (''B'', ''Bob''), (''C'', ''Carol'')]"

definition abcUpstream :: remote where
  "abcUpstream = \<lparr> fetchUsers = Some abcDirectory,
     fetchPosts = (\<lambda>userId. if userId = ''A'' then Some (postsOf 1 10 3)
                    else if userId = ''B'' then Some (postsOf 2 20 5)
                    else if userId = ''C'' then Some (postsOf 3 30 5) else None),
     fetchComments = (\<lambda>postId. None), fetchAllPosts = True,
     postsArrival = (\<lambda>userId. 0), commentsArrival = (\<lambda>postId. 0) \<rparr>"

definition commentsOf :: "int \<Rightarrow> nat \<Rightarrow> comment list" where
  "commentsOf p n = map (\<lambda>i. \<lparr> comment_id = int i, postid = p, comment_content = [] \<rparr>) [0..<n]"

definition popularUpstream :: remote where
  "popularUpstream = \<lparr> fetchUsers = Some [(''1'', ''Ann'')],
     fetchPosts = (\<lambda>userId. if userId = ''1'' then Some (postsOf 1 1 3) else None),
     fetchComments = (\<lambda>postId. if postId = 1 then Some (commentsOf 1 2)
                       else if postId = 2 then Some (commentsOf 2 5)
                       else if postId = 3 then Some (commentsOf 3 5) else None),
     fetchAllPosts = True,
     postsArrival = (\<lambda>userId. 0), commentsArrival = (\<lambda>postId. 0) \<rparr>"

text \<open>A fresh directory and three posts stored at different times, no comment looked up yet.\<close>

definition stamped :: "int \<Rightarrow> int \<Rightarrow> post" where
  "stamped i t = \<lparr> post_id = i, userid = 1, content = [], timestamp = Some t \<rparr>"

definition threePostService :: service where
  "threePostService = new_service \<lparr> usersCache := [(''1'', ''Ann'')], lastUsersFetch := 1000,
     allPostsCache := [stamped 1 100, stamped 2 300, stamped 3 200] \<rparr>"

text \<open>
  Two users of whom only the first has posts the upstream can deliver, the same upstream
  once it delivers both, and the service after \<open>getTopUsers\<close> met the former.
\<close>

definition twoUsers :: users where
  "twoUsers = [(''1'', ''Ann''), (''2'', ''Bob'')]"

definition post8 :: post where
  "post8 = \<lparr> post_id = 8, userid = 2, content = ''hi'', timestamp = None \<rparr>"

definition annOnly :: remote where
  "annOnly = \<lparr> fetchUsers = Some twoUsers,
     fetchPosts = (\<lambda>userId. if userId = ''1'' then Some [post7] else None),
     fetchComments = (\<lambda>postId. None), fetchAllPosts = True,
     postsArrival = (\<lambda>userId. 0), commentsArrival = (\<lambda>postId. 0) \<rparr>"

definition annAndBob :: remote where
  "annAndBob = \<lparr> fetchUsers = Some twoUsers,
     fetchPosts = (\<lambda>userId. if userId = ''1'' then Some [post7]
                    else if userId = ''2'' then Some [post8] else None),
     fetchComments = (\<lambda>postId. None), fetchAllPosts = True,
     postsArrival = (\<lambda>userId. 0), commentsArrival = (\<lambda>postId. 0) \<rparr>"

definition halfLoaded :: service where
  "halfLoaded = new_service \<lparr> usersCache := twoUsers,
     postsCache := [(Num 1, [post7\<lparr>timestamp := Some 1001\<rparr>])],
     userPostCountCache := [(''1'', 1)],
     allPostsCache := [post7\<lparr>timestamp := Some 1001\<rparr>],
     lastUsersFetch := 1000, lastPostsFetch := [(Num 1, 1001)] \<rparr>"

definition constClock :: "int \<Rightarrow> nat \<Rightarrow> int" where
  "constClock t i = t"

text \<open>Upstreams whose user ids are not numbers, and one that delivers the post of user 1.\<close>

definition postA :: post where
  "postA = \<lparr> post_id = 10, userid = 1, content = ''a'', timestamp = None \<rparr>"

definition aliceOnly :: remote where
  "aliceOnly = \<lparr> fetchUsers = Some [(''A'', ''Alice'')],
     fetchPosts = (\<lambda>userId. if userId = ''A'' then Some [postA] else None),
     fetchComments = (\<lambda>postId. None), fetchAllPosts = True,
     postsArrival = (\<lambda>userId. 0), commentsArrival = (\<lambda>postId. 0) \<rparr>"

definition aliceAndBob :: remote where
  "aliceAndBob = \<lparr> fetchUsers = Some [(''A'', ''Alice''), (''B'', ''Bob'')],
     fetchPosts = (\<lambda>userId. if userId = ''A'' then Some [postA] else None),
     fetchComments = (\<lambda>postId. None), fetchAllPosts = True,
     postsArrival = (\<lambda>userId. 0), commentsArrival = (\<lambda>postId. 0) \<rparr>"

definition annPosts :: remote where
  "annPosts = \<lparr> fetchUsers = Some [(''1'', ''Ann'')],
     fetchPosts = (\<lambda>userId. if userId = ''1'' then Some [post7] else None),
     fetchComments = (\<lambda>postId. None), fetchAllPosts = True,
     postsArrival = (\<lambda>userId. 0), commentsArrival = (\<lambda>postId. 0) \<rparr>"

text \<open>
  An upstream whose directory holds user A alone, with her three posts; a service that holds
  a comment count for each of its three posts; and an upstream that fails both users, the
  answer for user 2 arriving before the answer for user 1.
\<close>

definition aliceAlone :: remote where
  "aliceAlone = \<lparr> fetchUsers = Some [(''A'', ''Alice'')],
     fetchPosts = (\<lambda>userId. if userId = ''A'' then Some (postsOf 1 10 3) else None),
     fetchComments = (\<lambda>postId. None), fetchAllPosts = True,
     postsArrival = (\<lambda>userId. 0), commentsArrival = (\<lambda>postId. 0) \<rparr>"

definition countedService :: service where
  "countedService = threePostService \<lparr>
     commentsCache := [(1, commentsOf 1 2), (2, commentsOf 2 5), (3, commentsOf 3 5)],
     postCommentCountCache := [(1, 2), (2, 5), (3, 5)],
     lastCommentsFetch := [(1, 1500), (2, 1500), (3, 1500)] \<rparr>"


section \<open>The three lookups\<close>

lemma parseInt10_1: "parseInt10 ''1'' = Num 1"
  by code_simp

lemma parseInt10_2: "parseInt10 ''2'' = Num 2"
  by code_simp

lemma parseInt10_A: "parseInt10 ''A'' = NaN"
  by code_simp

lemma parseInt10_B: "parseInt10 ''B'' = NaN"
  by code_simp

lemma getUsers_fresh:
  "usersCache s \<noteq> [] \<Longrightarrow> t - lastUsersFetch s < cacheTTL \<Longrightarrow>
     getUsers s t r = (Inr (usersCache s), s, [])"
  by (simp add: getUsers_def)

lemma getUserPosts_fresh_hit:
  assumes "map_of (postsCache s) (parseInt10 userId) = Some ps"
      and "map_of (lastPostsFetch s) (parseInt10 userId) = Some stored"
      and "t - stored < cacheTTL"
  shows "getUserPosts s t userId r = (Inr ps, s, [])"
  using assms by (simp add: getUserPosts_def getUserPosts_fresh_def has_def)

lemma getPostComments_fresh_hit:
  assumes "map_of (commentsCache s) postId = Some cs"
      and "map_of (lastCommentsFetch s) postId = Some stored"
      and "t - stored < cacheTTL"
  shows "getPostComments s t postId r = (Inr cs, s, [])"
  using assms by (simp add: getPostComments_def getPostComments_fresh_def has_def)

lemma getUsers_failed:
  "fetchUsers r = None \<Longrightarrow>
     getUsers s t r =
       (if usersCache s \<noteq> [] then Inr (usersCache s) else Inl (FetchFailure ReqUsers), s,
        if usersCache s \<noteq> [] \<and> t - lastUsersFetch s < cacheTTL then [] else [ReqUsers])"
  by (simp add: getUsers_def)

lemma getUserPosts_failed:
  "fetchPosts r userId = None \<Longrightarrow>
     fst (getUserPosts s t userId r) =
       (case map_of (postsCache s) (parseInt10 userId) of
          Some ps \<Rightarrow> Inr ps | None \<Rightarrow> Inl (FetchFailure (ReqPosts userId))) \<and>
     fst (snd (getUserPosts s t userId r)) = s"
  by (auto simp add: getUserPosts_def getUserPosts_fresh_def getUserPosts_settle_def has_def
      Let_def split: option.splits)

lemma getPostComments_failed:
  "fetchComments r postId = None \<Longrightarrow>
     fst (getPostComments s t postId r) =
       (case map_of (commentsCache s) postId of
          Some cs \<Rightarrow> Inr cs | None \<Rightarrow> Inl (FetchFailure (ReqComments postId))) \<and>
     fst (snd (getPostComments s t postId r)) = s"
  by (auto simp add: getPostComments_def getPostComments_fresh_def getPostComments_settle_def
      has_def split: option.splits)

section \<open>Freshness\<close>

text \<open>
  C1, as stated, fails for the user directory: \<open>getUsers\<close> takes an empty
  \<open>usersCache\<close> for no value at all. A service that has just stored the empty directory
  the upstream returned sends the request again one millisecond later.
\<close>

theorem fresh_empty_directory_refetched:
  "getUsers new_service 1000 emptyDirectory =
     (Inr [], new_service\<lparr>usersCache := [], lastUsersFetch := 1000\<rparr>, [ReqUsers]) \<and>
   1001 - lastUsersFetch (new_service\<lparr>usersCache := [], lastUsersFetch := 1000\<rparr>) < cacheTTL \<and>
   snd (snd (getUsers (new_service\<lparr>usersCache := [], lastUsersFetch := 1000\<rparr>) 1001
     emptyDirectory)) = [ReqUsers]"
  by (simp add: getUsers_def new_service_def emptyDirectory_def cacheTTL_def)

text \<open>
  C1, amended: a lookup whose key holds a value stored less than \<open>cacheTTL\<close> = 30000 ms
  ago returns that value, leaves the service as it is and sends no request; for the user
  directory the stored value must be non-empty, for the posts of a user and the comments
  of a post the key must be present in the cache and in the timestamp map. The key of a
  user's posts is \<open>parseInt(userId, 10)\<close>.
\<close>

theorem fresh_lookup_sends_no_request:
  "(usersCache s \<noteq> [] \<and> t - lastUsersFetch s < cacheTTL \<longrightarrow>
      getUsers s t r = (Inr (usersCache s), s, [])) \<and>
   (map_of (postsCache s) (parseInt10 userId) = Some ps \<and>
    map_of (lastPostsFetch s) (parseInt10 userId) = Some tp \<and> t - tp < cacheTTL \<longrightarrow>
      getUserPosts s t userId r = (Inr ps, s, [])) \<and>
   (map_of (commentsCache s) postId = Some cs \<and>
    map_of (lastCommentsFetch s) postId = Some tc \<and> t - tc < cacheTTL \<longrightarrow>
      getPostComments s t postId r = (Inr cs, s, []))"
  by (simp add: getUsers_fresh getUserPosts_fresh_hit getPostComments_fresh_hit)

theorem fresh_lookup_sends_no_request_witness:
  "getUsers warmService 30999 upstreamDown = (Inr [(''1'', ''Ann'')], warmService, []) \<and>
   getUserPosts warmService 30999 ''1'' upstreamDown = (Inr [post7], warmService, []) \<and>
   getPostComments warmService 30999 7 upstreamDown = (Inr [comment3], warmService, [])"
  using fresh_lookup_sends_no_request
    [of warmService 30999 upstreamDown "''1''" "[post7]" 1000 7 "[comment3]" 1000]
  by (simp add: warmService_def cacheTTL_def parseInt10_1)

section \<open>Failed refetch\<close>

text \<open>
  C2, as stated, fails for the user directory, for the same reason: the empty directory
  stored at time 1000 is a previous value, yet when the refetch fails after the TTL the
  lookup throws instead of returning it.
\<close>

theorem stored_empty_directory_not_served:
  "getUsers new_service 1000 emptyDirectory =
     (Inr [], new_service\<lparr>usersCache := [], lastUsersFetch := 1000\<rparr>, [ReqUsers]) \<and>
   getUsers (new_service\<lparr>usersCache := [], lastUsersFetch := 1000\<rparr>) 31000 upstreamDown =
     (Inl (FetchFailure ReqUsers), new_service\<lparr>usersCache := [], lastUsersFetch := 1000\<rparr>,
      [ReqUsers])"
  by (simp add: getUsers_def new_service_def emptyDirectory_def upstreamDown_def cacheTTL_def)

text \<open>
  C2, amended: when the upstream fails, a lookup returns the value its key holds, however
  old, and throws \<open>FetchFailure\<close> when the key holds none; the service is unchanged either
  way. For the user directory, holding a value means holding a non-empty directory; for
  posts and comments it means that the key is present in the cache.
\<close>

theorem failed_refetch_serves_prior_value:
  "(fetchUsers r = None \<longrightarrow>
      fst (getUsers s t r) =
        (if usersCache s \<noteq> [] then Inr (usersCache s) else Inl (FetchFailure ReqUsers)) \<and>
      fst (snd (getUsers s t r)) = s) \<and>
   (fetchPosts r userId = None \<longrightarrow>
      fst (getUserPosts s t userId r) =
        (case map_of (postsCache s) (parseInt10 userId) of
           Some ps \<Rightarrow> Inr ps | None \<Rightarrow> Inl (FetchFailure (ReqPosts userId))) \<and>
      fst (snd (getUserPosts s t userId r)) = s) \<and>
   (fetchComments r postId = None \<longrightarrow>
      fst (getPostComments s t postId r) =
        (case map_of (commentsCache s) postId of
           Some cs \<Rightarrow> Inr cs | None \<Rightarrow> Inl (FetchFailure (ReqComments postId))) \<and>
      fst (snd (getPostComments s t postId r)) = s)"
  using getUsers_failed [of r s t] getUserPosts_failed [of r userId s t]
    getPostComments_failed [of r postId s t]
  by simp

theorem failed_refetch_serves_prior_value_witness:
  "fst (getUsers warmService 99000 upstreamDown) = Inr [(''1'', ''Ann'')] \<and>
   fst (getUserPosts warmService 99000 ''1'' upstreamDown) = Inr [post7] \<and>
   fst (getPostComments warmService 99000 7 upstreamDown) = Inr [comment3] \<and>
   fst (getUsers new_service 99000 upstreamDown) = Inl (FetchFailure ReqUsers) \<and>
   fst (getUserPosts new_service 99000 ''1'' upstreamDown) = Inl (FetchFailure (ReqPosts ''1'')) \<and>
   fst (getPostComments new_service 99000 7 upstreamDown) = Inl (FetchFailure (ReqComments 7))"
  using failed_refetch_serves_prior_value [of upstreamDown warmService 99000 "''1''" 7]
    failed_refetch_serves_prior_value [of upstreamDown new_service 99000 "''1''" 7]
  by (simp add: warmService_def new_service_def upstreamDown_def parseInt10_1)

section \<open>updateCache\<close>

text \<open>
  C10: \<open>updateCache\<close> returns normally and leaves the whole service, every cache and
  every timestamp, exactly as it was, whatever the upstream answers.
\<close>

theorem updateCache_changes_nothing:
  "fst (updateCache s r) = Inr () \<and> fst (snd (updateCache s r)) = s"
  by (simp add: updateCache_def)

section \<open>Stable descending sort\<close>

lemma insertBy_insort_key:
  "insertBy (\<lambda>a b. key b - key a) x ys = insort_key (\<lambda>a. - key a) x ys"
  for key :: "'a \<Rightarrow> int"
  by (induction ys) auto

lemma sortBy_sort_key:
  "sortBy (\<lambda>a b. key b - key a) xs = sort_key (\<lambda>a. - key a) xs"
  for key :: "'a \<Rightarrow> int"
  by (induction xs) (simp_all add: sortBy_def insertBy_insort_key)

lemma sortBy_mset: "mset (sortBy (\<lambda>a b. key b - key a) xs) = mset xs"
  for key :: "'a \<Rightarrow> int"
  by (simp add: sortBy_sort_key)

lemma sortBy_descending:
  "sorted_wrt (\<lambda>a b. key b \<le> key a) (sortBy (\<lambda>a b. key b - key a) xs)"
  for key :: "'a \<Rightarrow> int"
proof -
  have "sorted (map (\<lambda>a. - key a) (sort_key (\<lambda>a. - key a) xs))"
    by (rule sorted_sort_key)
  then show ?thesis
    by (simp add: sortBy_sort_key sorted_map)
qed

lemma sortBy_stable:
  "filter (\<lambda>a. key a = k) (sortBy (\<lambda>a b. key b - key a) xs) = filter (\<lambda>a. key a = k) xs"
  for key :: "'a \<Rightarrow> int"
proof -
  have "filter (\<lambda>a. - key a = - k) (sort_key (\<lambda>a. - key a) xs) = filter (\<lambda>a. - key a = - k) xs"
    by (rule sort_key_stable)
  then show ?thesis
    by (simp add: sortBy_sort_key)
qed

lemma byPostCount_key: "byPostCount = (\<lambda>a b. int (postCount b) - int (postCount a))"
  by (simp add: byPostCount_def fun_eq_iff)

lemma sortBy_byPostCount:
  "mset (sortBy byPostCount xs) = mset xs"
  "sorted_wrt (\<lambda>a b. postCount b \<le> postCount a) (sortBy byPostCount xs)"
  "filter (\<lambda>u. postCount u = c) (sortBy byPostCount xs) = filter (\<lambda>u. postCount u = c) xs"
  using sortBy_mset [of "\<lambda>u. int (postCount u)" xs]
    sortBy_descending [of "\<lambda>u. int (postCount u)" xs]
    sortBy_stable [of "\<lambda>u. int (postCount u)" "int c" xs]
  by (simp_all add: byPostCount_key)

lemma topUsers_entries_ids: "map user_id (topUsers_entries us postCounts) = map fst us"
  by (simp add: topUsers_entries_def comp_def)

lemma slice0_take: "0 \<le> n \<Longrightarrow> slice0 (Num n) xs = take (nat n) xs"
  by (simp add: slice0_def)

lemma getTopUsers_result:
  assumes "getUsers s t0 r = (Inr us, s1, reqs1)"
      and "fst (topUsers_postCounts s1 t1 (map fst us) r) = postCounts"
  shows "fst (getTopUsers s t0 t1 limit r) =
           Inr (slice0 (case limit of None \<Rightarrow> Num 5 | Some l \<Rightarrow> l)
                  (sortBy byPostCount (topUsers_entries us postCounts)))"
  using assms by (cases "topUsers_postCounts s1 t1 (map fst us) r") (simp add: getTopUsers_def)

section \<open>Maps as association lists\<close>

lemma has_update: "has (AList.update k v m) k' \<longleftrightarrow> k' = k \<or> has m k'"
  by (auto simp: has_def update_conv')

lemma has_keys: "has m k \<longleftrightarrow> k \<in> fst ` set m"
  by (simp add: has_def map_of_eq_None_iff)

lemma setAll_Nil: "setAll m [] = m"
  by (simp add: setAll_def)

lemma setAll_Cons: "setAll m ((k, v) # kvs) = setAll (AList.update k v m) kvs"
  by (simp add: setAll_def)

lemma setAll_append: "setAll m (xs @ ys) = setAll (setAll m xs) ys"
  by (simp add: setAll_def)

lemma setAll_keys: "fst ` set (setAll m kvs) = fst ` set m \<union> fst ` set kvs"
proof (induction kvs arbitrary: m)
  case Nil
  then show ?case by (simp add: setAll_Nil)
next
  case (Cons x kvs)
  obtain k v where x: "x = (k, v)" by (cases x)
  show ?case unfolding x setAll_Cons Cons by (auto simp: dom_update)
qed

lemma setAll_distinct_keys: "distinct (map fst m) \<Longrightarrow> distinct (map fst (setAll m kvs))"
proof (induction kvs arbitrary: m)
  case Nil
  then show ?case by (simp add: setAll_Nil)
next
  case (Cons x kvs)
  obtain k v where x: "x = (k, v)" by (cases x)
  from Cons(2) have "distinct (map fst (AList.update k v m))" by (rule distinct_update)
  then show ?case unfolding x setAll_Cons by (rule Cons(1))
qed

lemma setAll_other: "k \<notin> fst ` set kvs \<Longrightarrow> map_of (setAll m kvs) k = map_of m k"
proof (induction kvs arbitrary: m)
  case Nil
  then show ?case by (simp add: setAll_Nil)
next
  case (Cons x kvs)
  obtain k' v where x: "x = (k', v)" by (cases x)
  from Cons(2) x have "k \<noteq> k'" "k \<notin> fst ` set kvs" by auto
  with Cons(1) show ?case unfolding x setAll_Cons by (simp add: update_conv')
qed

lemma setAll_const:
  "k \<in> fst ` set kvs \<Longrightarrow> \<forall>v. (k, v) \<in> set kvs \<longrightarrow> v = c \<Longrightarrow> map_of (setAll m kvs) k = Some c"
proof (induction kvs arbitrary: m)
  case Nil
  then show ?case by simp
next
  case (Cons x kvs)
  obtain k' v where x: "x = (k', v)" by (cases x)
  from Cons(3) have rest: "\<forall>v. (k, v) \<in> set kvs \<longrightarrow> v = c" by simp
  show ?case
  proof (cases "k \<in> fst ` set kvs")
    case True
    from Cons(1) [OF True rest] show ?thesis unfolding x setAll_Cons .
  next
    case False
    with Cons(2) x have "k' = k" by auto
    with Cons(3) x have "v = c" by simp
    from setAll_other [OF False] \<open>k' = k\<close> \<open>v = c\<close> show ?thesis
      unfolding x setAll_Cons by (simp add: update_conv')
  qed
qed

lemma setAll_map_of:
  assumes "distinct (map fst kvs)"
  shows "map_of (setAll m kvs) k = (case map_of kvs k of Some c \<Rightarrow> Some c | None \<Rightarrow> map_of m k)"
proof (cases "map_of kvs k")
  case None
  then have "k \<notin> fst ` set kvs" by (simp add: map_of_eq_None_iff)
  with None show ?thesis by (simp add: setAll_other)
next
  case (Some c)
  then have "k \<in> fst ` set kvs" by (metis map_of_eq_None_iff option.distinct(1))
  moreover have "\<forall>v. (k, v) \<in> set kvs \<longrightarrow> v = c"
    using assms Some by (metis map_of_is_SomeI option.inject)
  ultimately show ?thesis using Some by (simp add: setAll_const)
qed

lemma recordPostCounts_setAll:
  "recordPostCounts results m =
     setAll m (map (\<lambda>(userId, res). (userId, case res of Inr posts \<Rightarrow> length posts | Inl e \<Rightarrow> 0))
                 results)"
  by (induction results arbitrary: m)
     (auto simp: recordPostCounts_def setAll_def)

lemma recordPostCounts_const:
  assumes "\<forall>res. (userId, res) \<in> set results \<longrightarrow>
             (case res of Inr posts \<Rightarrow> length posts | Inl e \<Rightarrow> 0) = c"
  shows "map_of (recordPostCounts results m) userId =
           (if userId \<in> fst ` set results then Some c else map_of m userId)"
proof (cases "userId \<in> fst ` set results")
  case False
  then have "userId \<notin> fst ` set (map (\<lambda>(userId, res).
      (userId, case res of Inr posts \<Rightarrow> length posts | Inl e \<Rightarrow> 0)) results)"
    by force
  with False show ?thesis by (simp add: recordPostCounts_setAll setAll_other)
next
  case True
  then have "userId \<in> fst ` set (map (\<lambda>(userId, res).
      (userId, case res of Inr posts \<Rightarrow> length posts | Inl e \<Rightarrow> 0)) results)"
    by force
  moreover have "\<forall>v. (userId, v) \<in> set (map (\<lambda>(userId, res).
      (userId, case res of Inr posts \<Rightarrow> length posts | Inl e \<Rightarrow> 0)) results) \<longrightarrow> v = c"
    using assms by auto
  ultimately show ?thesis using True by (simp add: recordPostCounts_setAll setAll_const)
qed

section \<open>Lookups of posts made together\<close>

lemma getUserPosts_settle_count:
  "getUserPosts_settle s t userId response = (res, s') \<Longrightarrow>
     userPostCountCache s' =
       (case response of
          Some ps \<Rightarrow> AList.update userId (length ps) (userPostCountCache s)
        | None \<Rightarrow> userPostCountCache s)"
  by (auto simp: getUserPosts_settle_def Let_def split: option.splits if_splits)

lemma getUserPosts_settle_fetched:
  "getUserPosts_settle s t userId (Some ps) = (res, s') \<Longrightarrow>
     res = Inr (map (\<lambda>p. p\<lparr>timestamp := Some t\<rparr>) ps)"
  by (auto simp: getUserPosts_settle_def Let_def)

lemma getUserPosts_settle_failed:
  "\<not> has (postsCache s) (parseInt10 userId) \<Longrightarrow>
     getUserPosts_settle s t userId None = (Inl (FetchFailure (ReqPosts userId)), s)"
  by (simp add: getUserPosts_settle_def)

lemma getUserPosts_settle_other:
  assumes "getUserPosts_settle s t u response = (res, s')"
      and "parseInt10 u \<noteq> k" and "u \<noteq> userId"
  shows "has (postsCache s') k = has (postsCache s) k"
    and "has (userPostCountCache s') userId = has (userPostCountCache s) userId"
  using assms
  by (auto simp: getUserPosts_settle_def Let_def has_update split: option.splits if_splits)

lemma settlePosts_step:
  assumes "settlePosts s t (u # rest) r = (out, s')"
  obtains res s1 out1 where "getUserPosts_settle s t u (fetchPosts r u) = (res, s1)"
    and "settlePosts s1 t rest r = (out1, s')" and "out = (u, res) # out1"
proof -
  obtain res s1 where a: "getUserPosts_settle s t u (fetchPosts r u) = (res, s1)"
    by (cases "getUserPosts_settle s t u (fetchPosts r u)")
  obtain out1 s2 where b: "settlePosts s1 t rest r = (out1, s2)"
    by (cases "settlePosts s1 t rest r")
  from assms a b have "out = (u, res) # out1" "s' = s2" by simp_all
  with a b that show thesis by simp
qed

lemma settlePosts_keys: "settlePosts s t pending r = (out, s') \<Longrightarrow> map fst out = pending"
proof (induction pending arbitrary: s out)
  case Nil
  then show ?case by simp
next
  case (Cons u rest)
  from Cons(2) obtain res s1 out1 where "settlePosts s1 t rest r = (out1, s')"
    and "out = (u, res) # out1"
    by (rule settlePosts_step)
  with Cons(1) show ?case by simp
qed

lemma settlePosts_count:
  "settlePosts s t pending r = (out, s') \<Longrightarrow>
     map_of (userPostCountCache s') userId =
       (if userId \<in> set pending
        then (case fetchPosts r userId of
                Some ps \<Rightarrow> Some (length ps) | None \<Rightarrow> map_of (userPostCountCache s) userId)
        else map_of (userPostCountCache s) userId)"
proof (induction pending arbitrary: s out)
  case Nil
  then show ?case by simp
next
  case (Cons u rest)
  from Cons(2) obtain res s1 out1 where st: "getUserPosts_settle s t u (fetchPosts r u) = (res, s1)"
    and rec: "settlePosts s1 t rest r = (out1, s')"
    by (rule settlePosts_step)
  from getUserPosts_settle_count [OF st]
  have s1: "map_of (userPostCountCache s1) userId =
      (if u = userId
       then (case fetchPosts r userId of
               Some ps \<Rightarrow> Some (length ps) | None \<Rightarrow> map_of (userPostCountCache s) userId)
       else map_of (userPostCountCache s) userId)"
    by (auto simp: update_conv' split: option.splits)
  from Cons(1) [OF rec] s1 show ?case
    by (auto split: option.splits)
qed

lemma settlePosts_distinct:
  "settlePosts s t pending r = (out, s') \<Longrightarrow> distinct (map fst (userPostCountCache s)) \<Longrightarrow>
     distinct (map fst (userPostCountCache s'))"
proof (induction pending arbitrary: s out)
  case Nil
  then show ?case by simp
next
  case (Cons u rest)
  from Cons(2) obtain res s1 out1 where st: "getUserPosts_settle s t u (fetchPosts r u) = (res, s1)"
    and rec: "settlePosts s1 t rest r = (out1, s')"
    by (rule settlePosts_step)
  from getUserPosts_settle_count [OF st] Cons(3)
  have "distinct (map fst (userPostCountCache s1))"
    by (auto simp: distinct_update split: option.splits)
  with Cons(1) [OF rec] show ?case .
qed

lemma settlePosts_fetched:
  "settlePosts s t pending r = (out, s') \<Longrightarrow> fetchPosts r userId = Some ps \<Longrightarrow>
     (userId, res) \<in> set out \<Longrightarrow> res = Inr (map (\<lambda>p. p\<lparr>timestamp := Some t\<rparr>) ps)"
proof (induction pending arbitrary: s out)
  case Nil
  then show ?case by simp
next
  case (Cons u rest)
  from Cons(2) obtain res1 s1 out1 where st: "getUserPosts_settle s t u (fetchPosts r u) = (res1, s1)"
    and rec: "settlePosts s1 t rest r = (out1, s')" and out: "out = (u, res1) # out1"
    by (rule settlePosts_step)
  show ?case
  proof (cases "(userId, res) \<in> set out1")
    case True
    with Cons(1) [OF rec Cons(3)] show ?thesis .
  next
    case False
    with Cons(4) out have "u = userId" "res1 = res" by auto
    with st Cons(3) show ?thesis by (simp add: getUserPosts_settle_fetched)
  qed
qed

lemma settlePosts_failing:
  assumes "\<not> has (postsCache s) (parseInt10 userId)"
      and "\<not> has (userPostCountCache s) userId"
      and "fetchPosts r userId = None"
      and "\<forall>u\<in>set pending. parseInt10 u = parseInt10 userId \<longrightarrow> u = userId"
      and "settlePosts s t pending r = (out, s')"
  shows "\<not> has (postsCache s') (parseInt10 userId) \<and> \<not> has (userPostCountCache s') userId \<and>
         (\<forall>res. (userId, res) \<in> set out \<longrightarrow> res = Inl (FetchFailure (ReqPosts userId)))"
  using assms
proof (induction pending arbitrary: s out)
  case Nil
  then show ?case by simp
next
  case (Cons u rest)
  from Cons(6) obtain res s1 out1 where st: "getUserPosts_settle s t u (fetchPosts r u) = (res, s1)"
    and rec: "settlePosts s1 t rest r = (out1, s')" and out: "out = (u, res) # out1"
    by (rule settlePosts_step)
  from Cons(5) have rest: "\<forall>u\<in>set rest. parseInt10 u = parseInt10 userId \<longrightarrow> u = userId"
    by simp
  show ?case
  proof (cases "u = userId")
    case True
    with st Cons(2) Cons(4) have res: "res = Inl (FetchFailure (ReqPosts userId))" and s1: "s1 = s"
      by (simp_all add: getUserPosts_settle_failed)
    from Cons(1) [OF _ _ Cons(4) rest rec] Cons(2) Cons(3) s1 True res show ?thesis
      by (simp add: out)
  next
    case False
    with Cons(5) have k: "parseInt10 u \<noteq> parseInt10 userId" by auto
    from getUserPosts_settle_other [OF st k False] Cons(2) Cons(3)
    have "\<not> has (postsCache s1) (parseInt10 userId)" "\<not> has (userPostCountCache s1) userId"
      by simp_all
    from Cons(1) [OF this Cons(4) rest rec] False show ?thesis
      by (simp add: out)
  qed
qed

lemma allUserPosts_parts:
  assumes "allUserPosts s t userIds r = (completed, s', reqs)"
  obtains settled where
    "settlePosts s t (sort_key (postsArrival r) (pendingPosts s t userIds)) r = (settled, s')"
    and "completed = freshPosts s t userIds @ settled"
    and "reqs = map ReqPosts (pendingPosts s t userIds)"
  using assms by (auto simp: allUserPosts_def split: prod.splits)

lemma freshPosts_iff:
  "(userId, res) \<in> set (freshPosts s t userIds) \<longleftrightarrow>
     userId \<in> set userIds \<and> (\<exists>ps. getUserPosts_fresh s t userId = Some ps \<and> res = Inr ps)"
  by (auto simp: freshPosts_def split: option.splits)

lemma pendingPosts_iff:
  "userId \<in> set (pendingPosts s t userIds) \<longleftrightarrow>
     userId \<in> set userIds \<and> getUserPosts_fresh s t userId = None"
  by (simp add: pendingPosts_def)


lemma allUserPosts_count:
  assumes "allUserPosts s t userIds r = (completed, s', reqs)"
  shows "map_of (userPostCountCache s') userId =
       (if userId \<in> set userIds \<and> getUserPosts_fresh s t userId = None
        then (case fetchPosts r userId of
                Some ps \<Rightarrow> Some (length ps) | None \<Rightarrow> map_of (userPostCountCache s) userId)
        else map_of (userPostCountCache s) userId)"
  using assms
  by (elim allUserPosts_parts) (simp add: settlePosts_count pendingPosts_iff)

lemma allUserPosts_distinct:
  assumes "allUserPosts s t userIds r = (completed, s', reqs)"
      and "distinct (map fst (userPostCountCache s))"
  shows "distinct (map fst (userPostCountCache s'))"
  using assms
  by (elim allUserPosts_parts) (rule settlePosts_distinct)

lemma allUserPosts_settled:
  assumes "settlePosts s t (sort_key (postsArrival r) (pendingPosts s t userIds)) r = (settled, s')"
  shows "(\<exists>res. (userId, res) \<in> set settled) \<longleftrightarrow>
           userId \<in> set userIds \<and> getUserPosts_fresh s t userId = None"
proof -
  from settlePosts_keys [OF assms]
  have "fst ` set settled = set (pendingPosts s t userIds)"
    by (metis list.set_map set_sort)
  then have "userId \<in> fst ` set settled \<longleftrightarrow> userId \<in> set (pendingPosts s t userIds)"
    by simp
  then show ?thesis by (force simp: pendingPosts_iff)
qed

lemma allUserPosts_completed:
  assumes "allUserPosts s t userIds r = (completed, s', reqs)" and "userId \<in> set userIds"
  shows "userId \<in> fst ` set completed"
proof -
  from assms(1) obtain settled where sp:
    "settlePosts s t (sort_key (postsArrival r) (pendingPosts s t userIds)) r = (settled, s')"
    and c: "completed = freshPosts s t userIds @ settled"
    by (rule allUserPosts_parts)
  show ?thesis
  proof (cases "getUserPosts_fresh s t userId")
    case None
    with allUserPosts_settled [OF sp, of userId] assms(2) obtain res where "(userId, res) \<in> set settled"
      by blast
    then show ?thesis unfolding c by force
  next
    case (Some ps)
    with assms(2) have "(userId, Inr ps) \<in> set (freshPosts s t userIds)"
      by (simp add: freshPosts_iff)
    then show ?thesis unfolding c by force
  qed
qed

lemma allUserPosts_hit:
  assumes "allUserPosts s t userIds r = (completed, s', reqs)"
      and "getUserPosts_fresh s t userId = Some ps" and "(userId, res) \<in> set completed"
  shows "res = Inr ps"
proof -
  from assms(1) obtain settled where sp:
    "settlePosts s t (sort_key (postsArrival r) (pendingPosts s t userIds)) r = (settled, s')"
    and c: "completed = freshPosts s t userIds @ settled"
    by (rule allUserPosts_parts)
  from allUserPosts_settled [OF sp, of userId] assms(2) have "(userId, res) \<notin> set settled"
    by auto
  with assms(3) c have "(userId, res) \<in> set (freshPosts s t userIds)"
    by simp
  with assms(2) show ?thesis by (simp add: freshPosts_iff)
qed

lemma allUserPosts_fetched:
  assumes "allUserPosts s t userIds r = (completed, s', reqs)"
      and "getUserPosts_fresh s t userId = None" and "fetchPosts r userId = Some ps"
      and "(userId, res) \<in> set completed"
  shows "res = Inr (map (\<lambda>p. p\<lparr>timestamp := Some t\<rparr>) ps)"
proof -
  from assms(1) obtain settled where sp:
    "settlePosts s t (sort_key (postsArrival r) (pendingPosts s t userIds)) r = (settled, s')"
    and c: "completed = freshPosts s t userIds @ settled"
    by (rule allUserPosts_parts)
  from assms(2,4) c have "(userId, res) \<in> set settled"
    by (simp add: freshPosts_iff)
  with settlePosts_fetched [OF sp assms(3)] show ?thesis .
qed

lemma allUserPosts_failing:
  assumes "userId \<in> set userIds" and "fetchPosts r userId = None"
      and "\<not> has (postsCache s) (parseInt10 userId)"
      and "\<not> has (userPostCountCache s) userId"
      and "\<forall>u\<in>set userIds. parseInt10 u = parseInt10 userId \<longrightarrow> u = userId"
      and "allUserPosts s t userIds r = (completed, s', reqs)"
  shows "map_of (recordPostCounts completed []) userId = Some 0 \<and>
         \<not> has (userPostCountCache s') userId"
proof -
  from assms(6) obtain settled where sp:
    "settlePosts s t (sort_key (postsArrival r) (pendingPosts s t userIds)) r = (settled, s')"
    and c: "completed = freshPosts s t userIds @ settled"
    by (rule allUserPosts_parts)
  have fresh: "getUserPosts_fresh s t userId = None"
    using assms(3) by (simp add: getUserPosts_fresh_def)
  have pend: "\<forall>u\<in>set (sort_key (postsArrival r) (pendingPosts s t userIds)).
         parseInt10 u = parseInt10 userId \<longrightarrow> u = userId"
    using assms(5) by (simp add: pendingPosts_iff)
  from settlePosts_failing [OF assms(3) assms(4) assms(2) pend sp]
  have cache: "\<not> has (userPostCountCache s') userId"
    and failed: "\<forall>res. (userId, res) \<in> set settled \<longrightarrow> res = Inl (FetchFailure (ReqPosts userId))"
    by simp_all
  have zero: "\<forall>res. (userId, res) \<in> set completed \<longrightarrow>
      (case res of Inr posts \<Rightarrow> length posts | Inl e \<Rightarrow> 0) = 0"
    using failed fresh unfolding c by (auto simp: freshPosts_iff)
  have "userId \<in> fst ` set completed"
    using assms(6) assms(1) by (rule allUserPosts_completed)
  with recordPostCounts_const [OF zero, of "[]"]
  have "map_of (recordPostCounts completed []) userId = Some 0"
    by simp
  with cache show ?thesis by simp
qed

lemma getUserPosts_settle_None:
  "getUserPosts_settle s t userId None =
     (case map_of (postsCache s) (parseInt10 userId) of
        Some ps \<Rightarrow> Inr ps | None \<Rightarrow> Inl (FetchFailure (ReqPosts userId)), s)"
  by (auto simp: getUserPosts_settle_def has_def split: option.splits)

lemma getUserPosts_settle_posts_other:
  "getUserPosts_settle s t u response = (res, s') \<Longrightarrow> parseInt10 u \<noteq> k \<Longrightarrow>
     map_of (postsCache s') k = map_of (postsCache s) k"
  by (auto simp: getUserPosts_settle_def Let_def update_conv' split: option.splits if_splits)

lemma settlePosts_fallback:
  assumes "fetchPosts r userId = None"
      and "\<forall>u\<in>set pending. parseInt10 u = parseInt10 userId \<longrightarrow> u = userId"
      and "settlePosts s t pending r = (out, s')"
  shows "map_of (postsCache s') (parseInt10 userId) = map_of (postsCache s) (parseInt10 userId) \<and>
         (\<forall>res. (userId, res) \<in> set out \<longrightarrow>
            res = (case map_of (postsCache s) (parseInt10 userId) of
                     Some ps \<Rightarrow> Inr ps | None \<Rightarrow> Inl (FetchFailure (ReqPosts userId))))"
  using assms
proof (induction pending arbitrary: s out)
  case Nil
  then show ?case by simp
next
  case (Cons u rest)
  from Cons(4) obtain res s1 out1 where st: "getUserPosts_settle s t u (fetchPosts r u) = (res, s1)"
    and rec: "settlePosts s1 t rest r = (out1, s')" and out: "out = (u, res) # out1"
    by (rule settlePosts_step)
  from Cons(3) have rest: "\<forall>u\<in>set rest. parseInt10 u = parseInt10 userId \<longrightarrow> u = userId"
    by simp
  show ?case
  proof (cases "u = userId")
    case True
    with st Cons(2) have res: "res = (case map_of (postsCache s) (parseInt10 userId) of
          Some ps \<Rightarrow> Inr ps | None \<Rightarrow> Inl (FetchFailure (ReqPosts userId)))" and s1: "s1 = s"
      by (auto simp: getUserPosts_settle_None)
    from Cons(1) [OF Cons(2) rest rec] s1 True res show ?thesis
      by (auto simp: out)
  next
    case False
    with Cons(3) have k: "parseInt10 u \<noteq> parseInt10 userId" by auto
    from getUserPosts_settle_posts_other [OF st k]
    have "map_of (postsCache s1) (parseInt10 userId) = map_of (postsCache s) (parseInt10 userId)" .
    with Cons(1) [OF Cons(2) rest rec] False show ?thesis
      by (simp add: out)
  qed
qed

lemma allUserPosts_fallback:
  assumes "userId \<in> set userIds" and "fetchPosts r userId = None"
      and "getUserPosts_fresh s t userId = None"
      and "\<forall>u\<in>set userIds. parseInt10 u = parseInt10 userId \<longrightarrow> u = userId"
      and "allUserPosts s t userIds r = (completed, s', reqs)"
  shows "map_of (recordPostCounts completed []) userId =
           Some (case map_of (postsCache s) (parseInt10 userId) of
                   Some ps \<Rightarrow> length ps | None \<Rightarrow> 0) \<and>
         map_of (userPostCountCache s') userId = map_of (userPostCountCache s) userId"
proof -
  from assms(5) obtain settled where sp:
    "settlePosts s t (sort_key (postsArrival r) (pendingPosts s t userIds)) r = (settled, s')"
    and c: "completed = freshPosts s t userIds @ settled"
    by (rule allUserPosts_parts)
  have pend: "\<forall>u\<in>set (sort_key (postsArrival r) (pendingPosts s t userIds)).
         parseInt10 u = parseInt10 userId \<longrightarrow> u = userId"
    using assms(4) by (simp add: pendingPosts_iff)
  from settlePosts_fallback [OF assms(2) pend sp]
  have fb: "\<forall>res. (userId, res) \<in> set settled \<longrightarrow>
      res = (case map_of (postsCache s) (parseInt10 userId) of
               Some ps \<Rightarrow> Inr ps | None \<Rightarrow> Inl (FetchFailure (ReqPosts userId)))"
    by simp
  have every: "\<forall>res. (userId, res) \<in> set completed \<longrightarrow>
      (case res of Inr posts \<Rightarrow> length posts | Inl e \<Rightarrow> 0) =
        (case map_of (postsCache s) (parseInt10 userId) of Some ps \<Rightarrow> length ps | None \<Rightarrow> 0)"
    using fb assms(3) unfolding c by (auto simp: freshPosts_iff split: option.splits)
  have "userId \<in> fst ` set completed"
    using assms(5) assms(1) by (rule allUserPosts_completed)
  with recordPostCounts_const [OF every, of "[]"]
  have 1: "map_of (recordPostCounts completed []) userId =
      Some (case map_of (postsCache s) (parseInt10 userId) of Some ps \<Rightarrow> length ps | None \<Rightarrow> 0)"
    by simp
  from allUserPosts_count [OF assms(5), of userId] assms(2)
  have 2: "map_of (userPostCountCache s') userId = map_of (userPostCountCache s) userId"
    by simp
  from 1 2 show ?thesis by simp
qed

section \<open>The post counts of the ranking\<close>

lemma topUsers_postCounts_cached:
  assumes "map_of (userPostCountCache s) userId = Some c"
      and "distinct (map fst (userPostCountCache s))"
  shows "map_of (fst (topUsers_postCounts s t userIds r)) userId = Some c"
proof -
  let ?missing = "filter (\<lambda>u. \<not> has (userPostCountCache s) u) userIds"
  obtain results s' reqs where a: "allUserPosts s t ?missing r = (results, s', reqs)"
    by (cases "allUserPosts s t ?missing r")
  from assms(1) have ne: "userPostCountCache s \<noteq> []" by auto
  from assms(1) have "\<not> (userId \<in> set ?missing \<and> getUserPosts_fresh s t userId = None)"
    by (simp add: has_def)
  with allUserPosts_count [OF a, of userId] assms(1)
  have c: "map_of (userPostCountCache s') userId = Some c" by (simp only: if_False)
  have d: "distinct (map fst (userPostCountCache s'))"
    using a assms(2) by (rule allUserPosts_distinct)
  from ne a show ?thesis
    by (simp add: topUsers_postCounts_def setAll_map_of [OF d] c)
qed

lemma topUsers_postCounts_looked_up:
  assumes "userId \<in> set userIds" and "map_of (userPostCountCache s) userId = None"
      and "distinct (map fst (userPostCountCache s))"
      and "getUserPosts_fresh s t userId = Some ps \<or>
           getUserPosts_fresh s t userId = None \<and> fetchPosts r userId = Some ps"
  shows "map_of (fst (topUsers_postCounts s t userIds r)) userId = Some (length ps)"
proof -
  have looked: "map_of (recordPostCounts results []) userId = Some (length ps) \<and>
      (case map_of (userPostCountCache s') userId of Some c \<Rightarrow> Some c | None \<Rightarrow> Some (length ps)) =
        Some (length ps)"
    if a: "allUserPosts s t ids r = (results, s', reqs)" and i: "userId \<in> set ids"
    for ids results s' reqs
  proof -
    have every: "\<forall>res. (userId, res) \<in> set results \<longrightarrow>
        (case res of Inr posts \<Rightarrow> length posts | Inl e \<Rightarrow> 0) = length ps"
    proof (intro allI impI)
      fix res assume m: "(userId, res) \<in> set results"
      from assms(4) show "(case res of Inr posts \<Rightarrow> length posts | Inl e \<Rightarrow> 0) = length ps"
      proof
        assume "getUserPosts_fresh s t userId = Some ps"
        from allUserPosts_hit [OF a this m] show ?thesis by simp
      next
        assume "getUserPosts_fresh s t userId = None \<and> fetchPosts r userId = Some ps"
        then have "getUserPosts_fresh s t userId = None" "fetchPosts r userId = Some ps"
          by simp_all
        from allUserPosts_fetched [OF a this m] show ?thesis by simp
      qed
    qed
    have "userId \<in> fst ` set results"
      using a i by (rule allUserPosts_completed)
    with recordPostCounts_const [OF every, of "[]"]
    have 1: "map_of (recordPostCounts results []) userId = Some (length ps)" by simp
    from allUserPosts_count [OF a, of userId] assms(2) assms(4)
    have "map_of (userPostCountCache s') userId = None \<or>
        map_of (userPostCountCache s') userId = Some (length ps)"
      by (auto split: if_splits)
    then have 2: "(case map_of (userPostCountCache s') userId of
        Some c \<Rightarrow> Some c | None \<Rightarrow> Some (length ps)) = Some (length ps)"
      by auto
    from 1 2 show ?thesis by simp
  qed
  show ?thesis
  proof (cases "userPostCountCache s \<noteq> []")
    case True
    let ?missing = "filter (\<lambda>u. \<not> has (userPostCountCache s) u) userIds"
    obtain results s' reqs where a: "allUserPosts s t ?missing r = (results, s', reqs)"
      by (cases "allUserPosts s t ?missing r")
    have i: "userId \<in> set ?missing" using assms(1,2) by (simp add: has_def)
    have d: "distinct (map fst (userPostCountCache s'))"
      using a assms(3) by (rule allUserPosts_distinct)
    from looked [OF a i] True a show ?thesis
      by (auto simp: topUsers_postCounts_def setAll_map_of [OF d] split: option.splits)
  next
    case False
    obtain results s' reqs where a: "allUserPosts s t userIds r = (results, s', reqs)"
      by (cases "allUserPosts s t userIds r")
    from looked [OF a assms(1)] False a show ?thesis
      by (simp add: topUsers_postCounts_def)
  qed
qed

lemma topUsers_postCounts_failing:
  assumes "userId \<in> set userIds" and "fetchPosts r userId = None"
      and "\<not> has (postsCache s) (parseInt10 userId)"
      and "\<not> has (userPostCountCache s) userId"
      and "\<forall>u\<in>set userIds. parseInt10 u = parseInt10 userId \<longrightarrow> u = userId"
  shows "map_of (fst (topUsers_postCounts s t userIds r)) userId = Some 0"
proof (cases "userPostCountCache s \<noteq> []")
  case True
  let ?missing = "filter (\<lambda>u. \<not> has (userPostCountCache s) u) userIds"
  obtain results s' reqs where a: "allUserPosts s t ?missing r = (results, s', reqs)"
    by (cases "allUserPosts s t ?missing r")
  have "userId \<in> set ?missing" using assms(1,4) by simp
  moreover have "\<forall>u\<in>set ?missing. parseInt10 u = parseInt10 userId \<longrightarrow> u = userId"
    using assms(5) by simp
  ultimately have "map_of (recordPostCounts results []) userId = Some 0 \<and>
         \<not> has (userPostCountCache s') userId"
    using assms(2,3,4) a by (intro allUserPosts_failing [where userIds = ?missing])
  then show ?thesis
    using True a by (simp add: topUsers_postCounts_def setAll_other has_keys)
next
  case False
  obtain results s' reqs where a: "allUserPosts s t userIds r = (results, s', reqs)"
    by (cases "allUserPosts s t userIds r")
  from allUserPosts_failing [OF assms a] False a show ?thesis
    by (simp add: topUsers_postCounts_def)
qed

lemma topUsers_entries_count:
  "map_of postCounts userId = Some c \<Longrightarrow>
     \<forall>u\<in>set (topUsers_entries us postCounts). user_id u = userId \<longrightarrow> postCount u = c"
  by (auto simp: topUsers_entries_def)

lemma topUsers_entries_fields:
  "\<forall>u\<in>set (topUsers_entries us postCounts).
     name u = map_of us (user_id u) \<and>
     postCount u = (case map_of postCounts (user_id u) of Some c \<Rightarrow> c | None \<Rightarrow> 0)"
  by (auto simp: topUsers_entries_def)

lemma topUsers_postCounts_fallback:
  assumes "userId \<in> set userIds" and "fetchPosts r userId = None"
      and "getUserPosts_fresh s t userId = None"
      and "map_of (userPostCountCache s) userId = None"
      and "\<forall>u\<in>set userIds. parseInt10 u = parseInt10 userId \<longrightarrow> u = userId"
  shows "map_of (fst (topUsers_postCounts s t userIds r)) userId =
           Some (case map_of (postsCache s) (parseInt10 userId) of
                   Some ps \<Rightarrow> length ps | None \<Rightarrow> 0)"
proof (cases "userPostCountCache s \<noteq> []")
  case True
  let ?missing = "filter (\<lambda>u. \<not> has (userPostCountCache s) u) userIds"
  obtain results s' reqs where a: "allUserPosts s t ?missing r = (results, s', reqs)"
    by (cases "allUserPosts s t ?missing r")
  have i: "userId \<in> set ?missing" using assms(1,4) by (simp add: has_def)
  have n: "\<forall>u\<in>set ?missing. parseInt10 u = parseInt10 userId \<longrightarrow> u = userId"
    using assms(5) by simp
  from allUserPosts_fallback [OF i assms(2) assms(3) n a] assms(4)
  have 1: "map_of (recordPostCounts results []) userId =
      Some (case map_of (postsCache s) (parseInt10 userId) of Some ps \<Rightarrow> length ps | None \<Rightarrow> 0)"
    and 2: "userId \<notin> fst ` set (userPostCountCache s')"
    by (simp_all add: map_of_eq_None_iff)
  from True a 1 setAll_other [OF 2] show ?thesis
    by (simp add: topUsers_postCounts_def)
next
  case False
  obtain results s' reqs where a: "allUserPosts s t userIds r = (results, s', reqs)"
    by (cases "allUserPosts s t userIds r")
  from allUserPosts_fallback [OF assms(1,2,3,5) a] False a show ?thesis
    by (simp add: topUsers_postCounts_def)
qed

section \<open>Top users\<close>

lemma abc_users:
  "getUsers new_service 1000 abcUpstream =
     (Inr abcDirectory, new_service\<lparr>usersCache := abcDirectory, lastUsersFetch := 1000\<rparr>, [ReqUsers])"
  by (simp add: getUsers_def new_service_def abcUpstream_def)

lemma abc_counts:
  "fst (topUsers_postCounts (new_service\<lparr>usersCache := abcDirectory, lastUsersFetch := 1000\<rparr>) 1001
     (map fst abcDirectory) abcUpstream) = [(''A'', 3), (''B'', 5), (''C'', 5)]"
  by code_simp

lemma abc_ranked:
  "sortBy byPostCount (topUsers_entries abcDirectory [(''A'', 3), (''B'', 5), (''C'', 5)]) =
     [\<lparr> user_id = ''B'', name = Some ''Bob'', postCount = 5 \<rparr>,
      \<lparr> user_id = ''C'', name = Some ''Carol'', postCount = 5 \<rparr>,
      \<lparr> user_id = ''A'', name = Some ''Alice'', postCount = 3 \<rparr>]"
  by code_simp

lemma warm_users:
  "getUsers warmService 40000 annAndBob =
     (Inr twoUsers, warmService\<lparr>usersCache := twoUsers, lastUsersFetch := 40000\<rparr>, [ReqUsers])"
  by (simp add: getUsers_def warmService_def annAndBob_def cacheTTL_def)

text \<open>
  C3, as stated, fails: the count paired with a user is not always the number of that
  user's posts. \<open>getUserPosts\<close> keeps the posts of a user under \<open>parseInt(userId, 10)\<close>,
  which is \<open>NaN\<close> for every id that is not a number. Once the three posts of A are
  stored, a call made before they are 30 seconds old that finds A, B and C in the directory
  answers the lookups of B and C with the posts of A, without a request: the directory
  A, B, C whose users have 3, 5 and 5 posts is ranked A: 3, B: 3 for \<open>limit = 2\<close>.
\<close>

theorem posts_of_another_user_counted:
  "fetchUsers abcUpstream = Some abcDirectory \<and>
   map_option length (fetchPosts abcUpstream ''A'') = Some 3 \<and>
   map_option length (fetchPosts abcUpstream ''B'') = Some 5 \<and>
   map_option length (fetchPosts abcUpstream ''C'') = Some 5 \<and>
   fst (getTopUsers new_service 1000 1001 (Some (Num 2)) aliceAlone) =
     Inr [\<lparr> user_id = ''A'', name = Some ''Alice'', postCount = 3 \<rparr>] \<and>
   fst (getTopUsers (fst (snd (getTopUsers new_service 1000 1001 (Some (Num 2)) aliceAlone)))
          31000 31000 (Some (Num 2)) abcUpstream) =
     Inr [\<lparr> user_id = ''A'', name = Some ''Alice'', postCount = 3 \<rparr>,
          \<lparr> user_id = ''B'', name = Some ''Bob'', postCount = 3 \<rparr>] \<and>
   snd (snd (getTopUsers (fst (snd (getTopUsers new_service 1000 1001 (Some (Num 2)) aliceAlone)))
          31000 31000 (Some (Num 2)) abcUpstream)) = [ReqUsers]"
  by code_simp

text \<open>
  C3, amended: once the directory is obtained, \<open>getTopUsers\<close> returns the first \<open>limit\<close>
  entries (the first 5 when the argument is omitted) of the ranking: one entry per key of
  the directory with its name and the post count recorded for it, in descending order of
  post count, entries with equal counts in the order of the directory. The count recorded
  for a user is the one \<open>userPostCountCache\<close> holds for the id, however old; without one,
  the number of posts that \<open>getUserPosts\<close> returns: of the posts stored under
  \<open>parseInt(userId, 10)\<close> while they are fresh, else of the posts the upstream delivers;
  and when the request fails, of the posts stored under that key, however old, 0 when there
  are none, provided no other id of the directory has the key. From an empty service, the
  directory A, B, C whose users have 3, 5 and 5 posts and \<open>limit = 2\<close> give B, C.
\<close>

theorem getTopUsers_ranking:
  assumes "getUsers s t0 r = (Inr us, s1, reqs1)"
      and "fst (topUsers_postCounts s1 t1 (map fst us) r) = postCounts"
      and "0 \<le> n"
      and "distinct (map fst (userPostCountCache s1))"
  shows "fst (getTopUsers s t0 t1 (Some (Num n)) r) =
           Inr (take (nat n) (sortBy byPostCount (topUsers_entries us postCounts))) \<and>
         fst (getTopUsers s t0 t1 None r) =
           Inr (take 5 (sortBy byPostCount (topUsers_entries us postCounts))) \<and>
         map user_id (topUsers_entries us postCounts) = map fst us \<and>
         mset (sortBy byPostCount (topUsers_entries us postCounts)) =
           mset (topUsers_entries us postCounts) \<and>
         sorted_wrt (\<lambda>a b. postCount b \<le> postCount a)
           (sortBy byPostCount (topUsers_entries us postCounts)) \<and>
         (\<forall>c. filter (\<lambda>u. postCount u = c) (sortBy byPostCount (topUsers_entries us postCounts)) =
               filter (\<lambda>u. postCount u = c) (topUsers_entries us postCounts)) \<and>
         (\<forall>u\<in>set (topUsers_entries us postCounts).
            name u = map_of us (user_id u) \<and>
            postCount u = (case map_of postCounts (user_id u) of Some c \<Rightarrow> c | None \<Rightarrow> 0)) \<and>
         (\<forall>userId\<in>set (map fst us). \<forall>c.
            map_of (userPostCountCache s1) userId = Some c \<longrightarrow>
              map_of postCounts userId = Some c) \<and>
         (\<forall>userId\<in>set (map fst us). \<forall>ps.
            map_of (userPostCountCache s1) userId = None \<and>
            getUserPosts_fresh s1 t1 userId = Some ps \<longrightarrow>
              map_of postCounts userId = Some (length ps)) \<and>
         (\<forall>userId\<in>set (map fst us). \<forall>ps.
            map_of (userPostCountCache s1) userId = None \<and>
            getUserPosts_fresh s1 t1 userId = None \<and> fetchPosts r userId = Some ps \<longrightarrow>
              map_of postCounts userId = Some (length ps)) \<and>
         (\<forall>userId\<in>set (map fst us).
            map_of (userPostCountCache s1) userId = None \<and>
            getUserPosts_fresh s1 t1 userId = None \<and> fetchPosts r userId = None \<and>
            (\<forall>u\<in>set (map fst us). parseInt10 u = parseInt10 userId \<longrightarrow> u = userId) \<longrightarrow>
              map_of postCounts userId =
                Some (case map_of (postsCache s1) (parseInt10 userId) of
                        Some ps \<Rightarrow> length ps | None \<Rightarrow> 0)) \<and>
         fst (getTopUsers new_service 1000 1001 (Some (Num 2)) abcUpstream) =
           Inr [\<lparr> user_id = ''B'', name = Some ''Bob'', postCount = 5 \<rparr>,
                \<lparr> user_id = ''C'', name = Some ''Carol'', postCount = 5 \<rparr>]"
proof -
  have ex: "fst (getTopUsers new_service 1000 1001 (Some (Num 2)) abcUpstream) =
           Inr [\<lparr> user_id = ''B'', name = Some ''Bob'', postCount = 5 \<rparr>,
                \<lparr> user_id = ''C'', name = Some ''Carol'', postCount = 5 \<rparr>]"
    by code_simp
  have ranking: "fst (getTopUsers s t0 t1 (Some (Num n)) r) =
           Inr (take (nat n) (sortBy byPostCount (topUsers_entries us postCounts))) \<and>
         fst (getTopUsers s t0 t1 None r) =
           Inr (take 5 (sortBy byPostCount (topUsers_entries us postCounts))) \<and>
         map user_id (topUsers_entries us postCounts) = map fst us \<and>
         mset (sortBy byPostCount (topUsers_entries us postCounts)) =
           mset (topUsers_entries us postCounts) \<and>
         sorted_wrt (\<lambda>a b. postCount b \<le> postCount a)
           (sortBy byPostCount (topUsers_entries us postCounts)) \<and>
         (\<forall>c. filter (\<lambda>u. postCount u = c) (sortBy byPostCount (topUsers_entries us postCounts)) =
               filter (\<lambda>u. postCount u = c) (topUsers_entries us postCounts))"
    using assms(3) getTopUsers_result [OF assms(1,2)]
    by (simp add: slice0_take sortBy_byPostCount topUsers_entries_ids)
  have cached: "\<forall>userId\<in>set (map fst us). \<forall>c.
            map_of (userPostCountCache s1) userId = Some c \<longrightarrow>
              map_of postCounts userId = Some c"
    using topUsers_postCounts_cached [OF _ assms(4), of _ _ t1 "map fst us" r] assms(2)
    by blast
  have hit: "\<forall>userId\<in>set (map fst us). \<forall>ps.
            map_of (userPostCountCache s1) userId = None \<and>
            getUserPosts_fresh s1 t1 userId = Some ps \<longrightarrow>
              map_of postCounts userId = Some (length ps)"
  proof (intro ballI allI impI)
    fix userId ps
    assume i: "userId \<in> set (map fst us)"
      and a: "map_of (userPostCountCache s1) userId = None \<and>
            getUserPosts_fresh s1 t1 userId = Some ps"
    from a have "map_of (userPostCountCache s1) userId = None"
      and "getUserPosts_fresh s1 t1 userId = Some ps \<or>
           getUserPosts_fresh s1 t1 userId = None \<and> fetchPosts r userId = Some ps"
      by simp_all
    from topUsers_postCounts_looked_up [OF i this(1) assms(4) this(2)] assms(2)
    show "map_of postCounts userId = Some (length ps)" by simp
  qed
  have fetched: "\<forall>userId\<in>set (map fst us). \<forall>ps.
            map_of (userPostCountCache s1) userId = None \<and>
            getUserPosts_fresh s1 t1 userId = None \<and> fetchPosts r userId = Some ps \<longrightarrow>
              map_of postCounts userId = Some (length ps)"
  proof (intro ballI allI impI)
    fix userId ps
    assume i: "userId \<in> set (map fst us)"
      and a: "map_of (userPostCountCache s1) userId = None \<and>
            getUserPosts_fresh s1 t1 userId = None \<and> fetchPosts r userId = Some ps"
    from a have "map_of (userPostCountCache s1) userId = None"
      and "getUserPosts_fresh s1 t1 userId = Some ps \<or>
           getUserPosts_fresh s1 t1 userId = None \<and> fetchPosts r userId = Some ps"
      by simp_all
    from topUsers_postCounts_looked_up [OF i this(1) assms(4) this(2)] assms(2)
    show "map_of postCounts userId = Some (length ps)" by simp
  qed
  have failed: "\<forall>userId\<in>set (map fst us).
            map_of (userPostCountCache s1) userId = None \<and>
            getUserPosts_fresh s1 t1 userId = None \<and> fetchPosts r userId = None \<and>
            (\<forall>u\<in>set (map fst us). parseInt10 u = parseInt10 userId \<longrightarrow> u = userId) \<longrightarrow>
              map_of postCounts userId =
                Some (case map_of (postsCache s1) (parseInt10 userId) of
                        Some ps \<Rightarrow> length ps | None \<Rightarrow> 0)"
  proof (intro ballI impI)
    fix userId
    assume i: "userId \<in> set (map fst us)"
      and a: "map_of (userPostCountCache s1) userId = None \<and>
            getUserPosts_fresh s1 t1 userId = None \<and> fetchPosts r userId = None \<and>
            (\<forall>u\<in>set (map fst us). parseInt10 u = parseInt10 userId \<longrightarrow> u = userId)"
    from a have 1: "fetchPosts r userId = None"
      and 2: "getUserPosts_fresh s1 t1 userId = None"
      and 3: "map_of (userPostCountCache s1) userId = None"
      and 4: "\<forall>u\<in>set (map fst us). parseInt10 u = parseInt10 userId \<longrightarrow> u = userId"
      by simp_all
    from topUsers_postCounts_fallback [OF i 1 2 3 4] assms(2)
    show "map_of postCounts userId =
        Some (case map_of (postsCache s1) (parseInt10 userId) of
                Some ps \<Rightarrow> length ps | None \<Rightarrow> 0)" by simp
  qed
  from ranking topUsers_entries_fields [of us postCounts] cached hit fetched failed ex
  show ?thesis by (intro conjI) blast+
qed

theorem getTopUsers_ranking_witness:
  "fst (getTopUsers warmService 40000 40001 (Some (Num 2)) annAndBob) =
     Inr [\<lparr> user_id = ''1'', name = Some ''Ann'', postCount = 1 \<rparr>,
          \<lparr> user_id = ''2'', name = Some ''Bob'', postCount = 1 \<rparr>] \<and>
   map_of (fst (topUsers_postCounts (warmService\<lparr>usersCache := twoUsers, lastUsersFetch := 40000\<rparr>)
     40001 (map fst twoUsers) annAndBob)) ''1'' = Some 1 \<and>
   map_of (fst (topUsers_postCounts (warmService\<lparr>usersCache := twoUsers, lastUsersFetch := 40000\<rparr>)
     40001 (map fst twoUsers) annAndBob)) ''2'' = Some 1"
proof -
  let ?s1 = "warmService\<lparr>usersCache := twoUsers, lastUsersFetch := 40000\<rparr>"
  let ?counts = "fst (topUsers_postCounts ?s1 40001 (map fst twoUsers) annAndBob)"
  have n: "(0::int) \<le> 2" by simp
  have d: "distinct (map fst (userPostCountCache ?s1))"
    by (simp add: warmService_def)
  note T = getTopUsers_ranking [OF warm_users refl n d]
  have in1: "''1'' \<in> set (map fst twoUsers)" and in2: "''2'' \<in> set (map fst twoUsers)"
    by (simp_all add: twoUsers_def)
  have c1: "map_of (userPostCountCache ?s1) ''1'' = Some 1"
    by (simp add: warmService_def)
  have c2: "map_of (userPostCountCache ?s1) ''2'' = None \<and>
      getUserPosts_fresh ?s1 40001 ''2'' = None \<and> fetchPosts annAndBob ''2'' = Some [post8]"
    by (simp add: warmService_def getUserPosts_fresh_def has_def parseInt10_2 annAndBob_def)
  from T in1 c1 have A: "map_of ?counts ''1'' = Some 1"
    by blast
  from T in2 c2 have "map_of ?counts ''2'' = Some (length [post8])"
    by blast
  then have B: "map_of ?counts ''2'' = Some 1"
    by simp
  from T have "fst (getTopUsers warmService 40000 40001 (Some (Num 2)) annAndBob) =
      Inr (take (nat 2) (sortBy byPostCount (topUsers_entries twoUsers ?counts)))"
    by blast
  moreover have "sortBy byPostCount (topUsers_entries twoUsers postCounts) =
      [\<lparr> user_id = ''1'', name = Some ''Ann'', postCount = 1 \<rparr>,
       \<lparr> user_id = ''2'', name = Some ''Bob'', postCount = 1 \<rparr>]"
    if "map_of postCounts ''1'' = Some 1" and "map_of postCounts ''2'' = Some 1" for postCounts
    using that by (simp add: topUsers_entries_def twoUsers_def sortBy_def byPostCount_def)
  ultimately have C: "fst (getTopUsers warmService 40000 40001 (Some (Num 2)) annAndBob) =
     Inr [\<lparr> user_id = ''1'', name = Some ''Ann'', postCount = 1 \<rparr>,
          \<lparr> user_id = ''2'', name = Some ''Bob'', postCount = 1 \<rparr>]"
    using A B by simp
  from C A B show ?thesis by (intro conjI)
qed

section \<open>Comment counts\<close>

lemma foldl_max: "foldl (\<lambda>m c. if c > m then c else m) a xs = Max (insert a (set xs))"
  for a :: nat
proof (induction xs arbitrary: a)
  case Nil
  then show ?case by simp
next
  case (Cons x xs)
  have "Max (insert (if a < x then x else a) (set xs)) = Max (insert a (insert x (set xs)))"
    by (cases "set xs = {}") (auto simp: max_def)
  with Cons show ?case by simp
qed

lemma countComments_done:
  "\<not> i < length allPosts \<Longrightarrow> countComments i allPosts clock r s counts = (counts, s, [])"
  by (simp add: countComments.simps [of i])

lemma countComments_step:
  "i < length allPosts \<Longrightarrow> countComments i allPosts clock r s counts =
     (case processBatch s (clock i) (take 10 (drop i allPosts)) r counts of
              (counts', s', reqs) \<Rightarrow>
                (case countComments (i + 10) allPosts clock r s' counts' of
                   (counts'', s'', reqs') \<Rightarrow> (counts'', s'', reqs @ reqs')))"
  by (simp add: countComments.simps [of i])

lemma maxCommentCount_Max: "maxCommentCount counts = Max (insert 0 (snd ` set counts))"
  by (simp add: maxCommentCount_def foldl_max)

lemma getPostComments_settle_allPosts:
  "getPostComments_settle s t postId response = (res, s') \<Longrightarrow> allPostsCache s' = allPostsCache s"
  by (auto simp: getPostComments_settle_def split: option.splits if_splits)

lemma getPostComments_settle_failed:
  "\<not> has (commentsCache s) postId \<Longrightarrow>
     getPostComments_settle s t postId None = (Inl (FetchFailure (ReqComments postId)), s)"
  by (simp add: getPostComments_settle_def)

lemma getPostComments_settle_fetched:
  "getPostComments_settle s t postId (Some cs) = (res, s') \<Longrightarrow>
     res = Inr cs \<and> map_of (postCommentCountCache s') postId = Some (length cs)"
  by (auto simp: getPostComments_settle_def update_conv')

lemma getPostComments_settle_other:
  assumes "getPostComments_settle s t postId response = (res, s')" and "postId \<noteq> k"
  shows "has (commentsCache s') k = has (commentsCache s) k"
    and "has (postCommentCountCache s') k = has (postCommentCountCache s) k"
    and "map_of (postCommentCountCache s') k = map_of (postCommentCountCache s) k"
  using assms
  by (auto simp: getPostComments_settle_def has_update update_conv' split: option.splits if_splits)

lemma settleCounts_step:
  assumes "settleCounts s t (p # rest) r counts = (counts', s')"
  obtains res s1 where
    "getPostComments_settle s t (post_id p) (fetchComments r (post_id p)) = (res, s1)"
    and "settleCounts s1 t rest r
           (AList.update (post_id p) (case res of Inr comments \<Rightarrow> length comments | Inl e \<Rightarrow> 0)
              counts) = (counts', s')"
proof -
  obtain res s1 where a:
      "getPostComments_settle s t (post_id p) (fetchComments r (post_id p)) = (res, s1)"
    by (cases "getPostComments_settle s t (post_id p) (fetchComments r (post_id p))")
  with assms have "settleCounts s1 t rest r
           (AList.update (post_id p) (case res of Inr comments \<Rightarrow> length comments | Inl e \<Rightarrow> 0)
              counts) = (counts', s')"
    by (cases res) simp_all
  with a that show thesis by blast
qed

lemma settleCounts_keys:
  "settleCounts s t pending r counts = (counts', s') \<Longrightarrow>
     fst ` set counts' = fst ` set counts \<union> post_id ` set pending \<and>
     (distinct (map fst counts) \<longrightarrow> distinct (map fst counts')) \<and>
     allPostsCache s' = allPostsCache s"
proof (induction pending arbitrary: s counts)
  case Nil
  then show ?case by simp
next
  case (Cons p rest)
  from Cons(2) obtain res s1 where
    st: "getPostComments_settle s t (post_id p) (fetchComments r (post_id p)) = (res, s1)"
    and rec: "settleCounts s1 t rest r
           (AList.update (post_id p) (case res of Inr comments \<Rightarrow> length comments | Inl e \<Rightarrow> 0)
              counts) = (counts', s')"
    by (rule settleCounts_step)
  from Cons(1) [OF rec] getPostComments_settle_allPosts [OF st] show ?case
    by (auto simp: dom_update distinct_update)
qed

lemma settleCounts_other:
  "settleCounts s t pending r counts = (counts', s') \<Longrightarrow> k \<notin> post_id ` set pending \<Longrightarrow>
     map_of counts' k = map_of counts k \<and>
     map_of (postCommentCountCache s') k = map_of (postCommentCountCache s) k \<and>
     has (postCommentCountCache s') k = has (postCommentCountCache s) k \<and>
     has (commentsCache s') k = has (commentsCache s) k"
proof (induction pending arbitrary: s counts)
  case Nil
  then show ?case by simp
next
  case (Cons p rest)
  from Cons(2) obtain res s1 where
    st: "getPostComments_settle s t (post_id p) (fetchComments r (post_id p)) = (res, s1)"
    and rec: "settleCounts s1 t rest r
           (AList.update (post_id p) (case res of Inr comments \<Rightarrow> length comments | Inl e \<Rightarrow> 0)
              counts) = (counts', s')"
    by (rule settleCounts_step)
  from Cons(3) have ne: "post_id p \<noteq> k" and rest: "k \<notin> post_id ` set rest" by auto
  from Cons(1) [OF rec rest] getPostComments_settle_other [OF st ne] ne show ?case
    by (simp add: update_conv')
qed

lemma settleCounts_fetched:
  "settleCounts s t pending r counts = (counts', s') \<Longrightarrow> fetchComments r k = Some cs \<Longrightarrow>
     k \<in> post_id ` set pending \<Longrightarrow>
     map_of counts' k = Some (length cs) \<and>
     map_of (postCommentCountCache s') k = Some (length cs)"
proof (induction pending arbitrary: s counts)
  case Nil
  then show ?case by simp
next
  case (Cons p rest)
  from Cons(2) obtain res s1 where
    st: "getPostComments_settle s t (post_id p) (fetchComments r (post_id p)) = (res, s1)"
    and rec: "settleCounts s1 t rest r
           (AList.update (post_id p) (case res of Inr comments \<Rightarrow> length comments | Inl e \<Rightarrow> 0)
              counts) = (counts', s')"
    by (rule settleCounts_step)
  show ?case
  proof (cases "k \<in> post_id ` set rest")
    case True
    from Cons(1) [OF rec Cons(3) True] show ?thesis .
  next
    case False
    with Cons(4) have k: "post_id p = k" by auto
    from st Cons(3) k have "res = Inr cs \<and> map_of (postCommentCountCache s1) k = Some (length cs)"
      by (simp add: getPostComments_settle_fetched)
    with settleCounts_other [OF rec False] k show ?thesis
      by (simp add: update_conv')
  qed
qed

lemma settleCounts_failing:
  assumes "fetchComments r k = None"
      and "\<not> has (postCommentCountCache s) k" and "\<not> has (commentsCache s) k"
      and "settleCounts s t pending r counts = (counts', s')"
  shows "map_of counts' k = (if k \<in> post_id ` set pending then Some 0 else map_of counts k) \<and>
         \<not> has (postCommentCountCache s') k \<and> \<not> has (commentsCache s') k"
  using assms
proof (induction pending arbitrary: s counts)
  case Nil
  then show ?case by simp
next
  case (Cons p rest)
  from Cons(5) obtain res s1 where
    st: "getPostComments_settle s t (post_id p) (fetchComments r (post_id p)) = (res, s1)"
    and rec: "settleCounts s1 t rest r
           (AList.update (post_id p) (case res of Inr comments \<Rightarrow> length comments | Inl e \<Rightarrow> 0)
              counts) = (counts', s')"
    by (rule settleCounts_step)
  show ?case
  proof (cases "post_id p = k")
    case True
    with st Cons(2) Cons(4) have res: "res = Inl (FetchFailure (ReqComments k))" and s1: "s1 = s"
      by (simp_all add: getPostComments_settle_failed)
    from Cons(1) [OF Cons(2) _ _ rec] Cons(3) Cons(4) s1 True res show ?thesis
      by (simp add: update_conv')
  next
    case False
    from getPostComments_settle_other [OF st False] Cons(3) Cons(4)
    have inv: "\<not> has (postCommentCountCache s1) k" "\<not> has (commentsCache s1) k"
      by simp_all
    from Cons(1) [OF Cons(2) inv rec] False show ?thesis
      by (simp add: update_conv')
  qed
qed

lemma cachedCounts_iff:
  "(k, c) \<in> set (cachedCounts s t batch) \<longleftrightarrow>
     (\<exists>p\<in>set batch. post_id p = k \<and> startCount s t p = Inl c)"
  by (auto simp: cachedCounts_def split: sum.splits) (metis sum.inject(1))+

lemma freshCounts_iff:
  "(k, c) \<in> set (freshCounts s t batch) \<longleftrightarrow>
     (\<exists>p\<in>set batch. \<exists>comments. post_id p = k \<and> startCount s t p = Inr (Some comments) \<and>
        c = length comments)"
  by (auto simp: freshCounts_def split: sum.splits option.splits) metis+

lemma pendingCounts_iff:
  "p \<in> set (pendingCounts s t batch) \<longleftrightarrow> p \<in> set batch \<and> startCount s t p = Inr None"
  by (simp add: pendingCounts_def)

lemma batch_classes:
  "fst ` set (cachedCounts s t batch) \<union> fst ` set (freshCounts s t batch) \<union>
     post_id ` set (pendingCounts s t batch) = post_id ` set batch"
proof (rule set_eqI)
  fix k
  show "k \<in> fst ` set (cachedCounts s t batch) \<union> fst ` set (freshCounts s t batch) \<union>
     post_id ` set (pendingCounts s t batch) \<longleftrightarrow> k \<in> post_id ` set batch"
  proof
    assume "k \<in> fst ` set (cachedCounts s t batch) \<union> fst ` set (freshCounts s t batch) \<union>
     post_id ` set (pendingCounts s t batch)"
    then consider c where "(k, c) \<in> set (cachedCounts s t batch)"
      | c where "(k, c) \<in> set (freshCounts s t batch)"
      | p where "p \<in> set (pendingCounts s t batch)" "post_id p = k"
      by force
    then show "k \<in> post_id ` set batch"
    proof cases
      case 1
      then show ?thesis unfolding cachedCounts_iff by blast
    next
      case 2
      then show ?thesis unfolding freshCounts_iff by blast
    next
      case 3
      then show ?thesis unfolding pendingCounts_iff by blast
    qed
  next
    assume "k \<in> post_id ` set batch"
    then obtain p where p: "p \<in> set batch" "post_id p = k" by blast
    show "k \<in> fst ` set (cachedCounts s t batch) \<union> fst ` set (freshCounts s t batch) \<union>
     post_id ` set (pendingCounts s t batch)"
    proof (cases "startCount s t p")
      case (Inl c)
      with p have "(k, c) \<in> set (cachedCounts s t batch)"
        unfolding cachedCounts_iff by blast
      then show ?thesis by force
    next
      case (Inr found)
      show ?thesis
      proof (cases found)
        case None
        with Inr p have "p \<in> set (pendingCounts s t batch)"
          unfolding pendingCounts_iff by simp
        with p(2) show ?thesis by blast
      next
        case (Some comments)
        with Inr p have "(k, length comments) \<in> set (freshCounts s t batch)"
          unfolding freshCounts_iff by blast
        then show ?thesis by force
      qed
    qed
  qed
qed

lemma processBatch_parts:
  assumes "processBatch s t batch r counts = (counts', s', reqs)"
  shows "settleCounts s t (sort_key (\<lambda>p. commentsArrival r (post_id p)) (pendingCounts s t batch)) r
           (setAll (setAll counts (cachedCounts s t batch)) (freshCounts s t batch)) = (counts', s')"
    and "reqs = map (\<lambda>p. ReqComments (post_id p)) (pendingCounts s t batch)"
  using assms by (auto simp: processBatch_def split: prod.splits)

lemma processBatch_keys:
  assumes "processBatch s t batch r counts = (counts', s', reqs)"
  shows "fst ` set counts' = fst ` set counts \<union> post_id ` set batch \<and>
         (distinct (map fst counts) \<longrightarrow> distinct (map fst counts')) \<and>
         allPostsCache s' = allPostsCache s"
proof -
  note sc = processBatch_parts(1) [OF assms]
  from settleCounts_keys [OF sc]
  have k: "fst ` set counts' =
      fst ` set counts \<union> (fst ` set (cachedCounts s t batch) \<union> fst ` set (freshCounts s t batch) \<union>
        post_id ` set (pendingCounts s t batch))"
    and d: "distinct (map fst (setAll (setAll counts (cachedCounts s t batch))
              (freshCounts s t batch))) \<longrightarrow> distinct (map fst counts')"
    and a: "allPostsCache s' = allPostsCache s"
    by (simp_all add: setAll_keys Un_assoc)
  from k have "fst ` set counts' = fst ` set counts \<union> post_id ` set batch"
    unfolding batch_classes .
  moreover from d have "distinct (map fst counts) \<longrightarrow> distinct (map fst counts')"
    by (simp add: setAll_distinct_keys)
  ultimately show ?thesis using a by simp
qed

lemma processBatch_cached:
  assumes "map_of (postCommentCountCache s) k = Some c"
      and "processBatch s t batch r counts = (counts', s', reqs)"
  shows "map_of counts' k = (if k \<in> post_id ` set batch then Some c else map_of counts k) \<and>
         map_of (postCommentCountCache s') k = Some c"
proof -
  note sc = processBatch_parts(1) [OF assms(2)]
  have start: "startCount s t p = Inl c" if "post_id p = k" for p
    using assms(1) that by (simp add: startCount_def has_def)
  have np: "k \<notin> post_id ` set (sort_key (\<lambda>p. commentsArrival r (post_id p))
      (pendingCounts s t batch))"
    using start by (auto simp: pendingCounts_iff)
  have nf: "k \<notin> fst ` set (freshCounts s t batch)"
  proof
    assume "k \<in> fst ` set (freshCounts s t batch)"
    then obtain n where "(k, n) \<in> set (freshCounts s t batch)" by force
    then show False unfolding freshCounts_iff using start by auto
  qed
  have every: "\<forall>v. (k, v) \<in> set (cachedCounts s t batch) \<longrightarrow> v = c"
    unfolding cachedCounts_iff using start by auto
  have "map_of (setAll counts (cachedCounts s t batch)) k =
      (if k \<in> post_id ` set batch then Some c else map_of counts k)"
  proof (cases "k \<in> post_id ` set batch")
    case True
    then obtain p where "p \<in> set batch" "post_id p = k" by blast
    with start [of p] have "(k, c) \<in> set (cachedCounts s t batch)"
      unfolding cachedCounts_iff by blast
    then have "k \<in> fst ` set (cachedCounts s t batch)" by force
    from setAll_const [OF this every] True show ?thesis by simp
  next
    case False
    have "k \<notin> fst ` set (cachedCounts s t batch)"
    proof
      assume "k \<in> fst ` set (cachedCounts s t batch)"
      then obtain n where "(k, n) \<in> set (cachedCounts s t batch)" by force
      then show False unfolding cachedCounts_iff using False by auto
    qed
    with False show ?thesis by (simp add: setAll_other)
  qed
  with settleCounts_other [OF sc np] setAll_other [OF nf] assms(1) show ?thesis
    by simp
qed

lemma processBatch_uncached:
  assumes "\<not> has (postCommentCountCache s) k" and "\<not> has (commentsCache s) k"
      and "processBatch s t batch r counts = (counts', s', reqs)"
  shows "settleCounts s t (sort_key (\<lambda>p. commentsArrival r (post_id p)) (pendingCounts s t batch)) r
           (setAll (setAll counts (cachedCounts s t batch)) (freshCounts s t batch)) = (counts', s')"
    and "map_of (setAll (setAll counts (cachedCounts s t batch)) (freshCounts s t batch)) k =
           map_of counts k"
    and "k \<in> post_id ` set (sort_key (\<lambda>p. commentsArrival r (post_id p))
           (pendingCounts s t batch)) \<longleftrightarrow> k \<in> post_id ` set batch"
proof -
  show "settleCounts s t (sort_key (\<lambda>p. commentsArrival r (post_id p)) (pendingCounts s t batch)) r
           (setAll (setAll counts (cachedCounts s t batch)) (freshCounts s t batch)) = (counts', s')"
    by (rule processBatch_parts(1) [OF assms(3)])
  have start: "startCount s t p = Inr None" if "post_id p = k" for p
    using assms(1,2) that by (simp add: startCount_def getPostComments_fresh_def)
  have nc: "k \<notin> fst ` set (cachedCounts s t batch)"
  proof
    assume "k \<in> fst ` set (cachedCounts s t batch)"
    then obtain n where "(k, n) \<in> set (cachedCounts s t batch)" by force
    then show False unfolding cachedCounts_iff using start by auto
  qed
  have nf: "k \<notin> fst ` set (freshCounts s t batch)"
  proof
    assume "k \<in> fst ` set (freshCounts s t batch)"
    then obtain n where "(k, n) \<in> set (freshCounts s t batch)" by force
    then show False unfolding freshCounts_iff using start by auto
  qed
  from nc nf
  show "map_of (setAll (setAll counts (cachedCounts s t batch)) (freshCounts s t batch)) k =
           map_of counts k"
    by (simp add: setAll_other)
  show "k \<in> post_id ` set (sort_key (\<lambda>p. commentsArrival r (post_id p))
           (pendingCounts s t batch)) \<longleftrightarrow> k \<in> post_id ` set batch"
    using start by (auto simp: pendingCounts_iff)
qed

lemma processBatch_fetched:
  assumes "\<not> has (postCommentCountCache s) k" and "\<not> has (commentsCache s) k"
      and "fetchComments r k = Some cs"
      and "processBatch s t batch r counts = (counts', s', reqs)"
  shows "map_of counts' k = (if k \<in> post_id ` set batch then Some (length cs) else map_of counts k)"
    and "k \<in> post_id ` set batch \<Longrightarrow> map_of (postCommentCountCache s') k = Some (length cs)"
    and "k \<notin> post_id ` set batch \<Longrightarrow>
           \<not> has (postCommentCountCache s') k \<and> \<not> has (commentsCache s') k"
proof -
  note u = processBatch_uncached [OF assms(1,2,4)]
  show "map_of counts' k = (if k \<in> post_id ` set batch then Some (length cs) else map_of counts k)"
  proof (cases "k \<in> post_id ` set batch")
    case True
    with u(3) settleCounts_fetched [OF u(1) assms(3)] show ?thesis by simp
  next
    case False
    with u(3) settleCounts_other [OF u(1)] u(2) show ?thesis by simp
  qed
  show "map_of (postCommentCountCache s') k = Some (length cs)" if "k \<in> post_id ` set batch"
    using that u(3) settleCounts_fetched [OF u(1) assms(3)] by simp
  show "\<not> has (postCommentCountCache s') k \<and> \<not> has (commentsCache s') k"
    if "k \<notin> post_id ` set batch"
    using that u(3) settleCounts_other [OF u(1)] assms(1,2) by simp
qed

lemma processBatch_failing:
  assumes "fetchComments r k = None"
      and "\<not> has (postCommentCountCache s) k" and "\<not> has (commentsCache s) k"
      and "processBatch s t batch r counts = (counts', s', reqs)"
  shows "map_of counts' k = (if k \<in> post_id ` set batch then Some 0 else map_of counts k) \<and>
         \<not> has (postCommentCountCache s') k \<and> \<not> has (commentsCache s') k"
proof -
  note u = processBatch_uncached [OF assms(2,3,4)]
  from settleCounts_failing [OF assms(1,2,3) u(1)] u(2) u(3) show ?thesis
    by simp
qed

lemma drop_batch:
  "set (drop i allPosts) = set (take 10 (drop i allPosts)) \<union> set (drop (i + 10) allPosts)"
  by (metis add.commute append_take_drop_id drop_drop set_append)

lemma countComments_unfold:
  assumes "countComments i allPosts clock r s counts = (counts', s', reqs)"
      and "i < length allPosts"
  obtains c1 s1 q1 q2 where
    "processBatch s (clock i) (take 10 (drop i allPosts)) r counts = (c1, s1, q1)"
    and "countComments (i + 10) allPosts clock r s1 c1 = (counts', s', q2)"
    and "reqs = q1 @ q2"
proof -
  obtain c1 s1 q1 where pb:
      "processBatch s (clock i) (take 10 (drop i allPosts)) r counts = (c1, s1, q1)"
    by (cases "processBatch s (clock i) (take 10 (drop i allPosts)) r counts")
  obtain c2 s2 q2 where cc: "countComments (i + 10) allPosts clock r s1 c1 = (c2, s2, q2)"
    by (cases "countComments (i + 10) allPosts clock r s1 c1")
  from assms pb cc have "c2 = counts'" "s2 = s'" "reqs = q1 @ q2"
    by (simp_all add: countComments_step)
  with pb cc that show thesis by simp
qed

lemma countComments_keys:
  "countComments i allPosts clock r s counts = (counts', s', reqs) \<Longrightarrow>
     fst ` set counts' = fst ` set counts \<union> post_id ` set (drop i allPosts) \<and>
     (distinct (map fst counts) \<longrightarrow> distinct (map fst counts')) \<and>
     allPostsCache s' = allPostsCache s"
proof (induction i allPosts clock r s counts arbitrary: counts' s' reqs rule: countComments.induct)
  case (1 i allPosts clock r s counts)
  show ?case
  proof (cases "i < length allPosts")
    case False
    with 1(2) show ?thesis by (simp add: countComments_done)
  next
    case True
    from 1(2) True obtain c1 s1 q1 q2 where
      pb: "processBatch s (clock i) (take 10 (drop i allPosts)) r counts = (c1, s1, q1)"
      and cc: "countComments (i + 10) allPosts clock r s1 c1 = (counts', s', q2)"
      by (rule countComments_unfold)
    from 1(1) [OF True pb [symmetric] refl cc] processBatch_keys [OF pb] drop_batch [of i allPosts]
    show ?thesis by auto
  qed
qed

lemma countComments_cached:
  "map_of (postCommentCountCache s) k = Some c \<Longrightarrow>
   countComments i allPosts clock r s counts = (counts', s', reqs) \<Longrightarrow>
     map_of counts' k = (if k \<in> post_id ` set (drop i allPosts) then Some c else map_of counts k)"
proof (induction i allPosts clock r s counts arbitrary: counts' s' reqs rule: countComments.induct)
  case (1 i allPosts clock r s counts)
  show ?case
  proof (cases "i < length allPosts")
    case False
    with 1(3) show ?thesis by (simp add: countComments_done)
  next
    case True
    from 1(3) True obtain c1 s1 q1 q2 where
      pb: "processBatch s (clock i) (take 10 (drop i allPosts)) r counts = (c1, s1, q1)"
      and cc: "countComments (i + 10) allPosts clock r s1 c1 = (counts', s', q2)"
      by (rule countComments_unfold)
    from processBatch_cached [OF 1(2) pb]
    have b: "map_of c1 k =
        (if k \<in> post_id ` set (take 10 (drop i allPosts)) then Some c else map_of counts k)"
      and inv: "map_of (postCommentCountCache s1) k = Some c"
      by simp_all
    from 1(1) [OF True pb [symmetric] refl inv cc] b drop_batch [of i allPosts] show ?thesis
      by (auto simp: image_Un)
  qed
qed

lemma countComments_fetched:
  "\<not> has (postCommentCountCache s) k \<Longrightarrow> \<not> has (commentsCache s) k \<Longrightarrow>
   fetchComments r k = Some cs \<Longrightarrow>
   countComments i allPosts clock r s counts = (counts', s', reqs) \<Longrightarrow>
     map_of counts' k =
       (if k \<in> post_id ` set (drop i allPosts) then Some (length cs) else map_of counts k)"
proof (induction i allPosts clock r s counts arbitrary: counts' s' reqs rule: countComments.induct)
  case (1 i allPosts clock r s counts)
  show ?case
  proof (cases "i < length allPosts")
    case False
    with 1(5) show ?thesis by (simp add: countComments_done)
  next
    case True
    from 1(5) True obtain c1 s1 q1 q2 where
      pb: "processBatch s (clock i) (take 10 (drop i allPosts)) r counts = (c1, s1, q1)"
      and cc: "countComments (i + 10) allPosts clock r s1 c1 = (counts', s', q2)"
      by (rule countComments_unfold)
    note f = processBatch_fetched [OF 1(2) 1(3) 1(4) pb]
    show ?thesis
    proof (cases "k \<in> post_id ` set (take 10 (drop i allPosts))")
      case inb: True
      with f(1) f(2) have "map_of c1 k = Some (length cs)"
        and "map_of (postCommentCountCache s1) k = Some (length cs)"
        by simp_all
      from countComments_cached [OF this(2) cc] this(1) inb drop_batch [of i allPosts]
      show ?thesis by (auto simp: image_Un)
    next
      case nib: False
      with f(1) f(3) have b: "map_of c1 k = map_of counts k"
        and inv: "\<not> has (postCommentCountCache s1) k" "\<not> has (commentsCache s1) k"
        by simp_all
      from 1(1) [OF True pb [symmetric] refl inv 1(4) cc] b nib drop_batch [of i allPosts]
      show ?thesis by (auto simp: image_Un)
    qed
  qed
qed

lemma countComments_failing:
  assumes "fetchComments r k = None"
      and "\<not> has (postCommentCountCache s) k" and "\<not> has (commentsCache s) k"
      and "countComments i allPosts clock r s counts = (counts', s', reqs)"
  shows "map_of counts' k =
           (if k \<in> post_id ` set (drop i allPosts) then Some 0 else map_of counts k) \<and>
         \<not> has (postCommentCountCache s') k \<and> \<not> has (commentsCache s') k"
  using assms
proof (induction i allPosts clock r s counts arbitrary: counts' s' reqs rule: countComments.induct)
  case (1 i allPosts clock r s counts)
  show ?case
  proof (cases "i < length allPosts")
    case False
    with 1(5) 1(3) 1(4) show ?thesis by (simp add: countComments_done)
  next
    case True
    from 1(5) True obtain c1 s1 q1 q2 where
      pb: "processBatch s (clock i) (take 10 (drop i allPosts)) r counts = (c1, s1, q1)"
      and cc: "countComments (i + 10) allPosts clock r s1 c1 = (counts', s', q2)"
      by (rule countComments_unfold)
    from processBatch_failing [OF 1(2) 1(3) 1(4) pb]
    have b: "map_of c1 k =
        (if k \<in> post_id ` set (take 10 (drop i allPosts)) then Some 0 else map_of counts k)"
      and inv: "\<not> has (postCommentCountCache s1) k" "\<not> has (commentsCache s1) k"
      by simp_all
    from 1(1) [OF True pb [symmetric] refl 1(2) inv cc] b drop_batch [of i allPosts]
    show ?thesis
      by (auto simp: image_Un)
  qed
qed

lemma getPostComments_settle_fresh_other:
  assumes "getPostComments_settle s t postId response = (res, s')" and "postId \<noteq> k"
  shows "getPostComments_fresh s' t' k = getPostComments_fresh s t' k"
  using assms
  by (auto simp: getPostComments_settle_def getPostComments_fresh_def has_def update_conv'
      split: option.splits if_splits)

lemma settleCounts_fresh_other:
  "settleCounts s t pending r counts = (counts', s') \<Longrightarrow> k \<notin> post_id ` set pending \<Longrightarrow>
     getPostComments_fresh s' t' k = getPostComments_fresh s t' k"
proof (induction pending arbitrary: s counts)
  case Nil
  then show ?case by simp
next
  case (Cons p rest)
  from Cons(2) obtain res s1 where
    st: "getPostComments_settle s t (post_id p) (fetchComments r (post_id p)) = (res, s1)"
    and rec: "settleCounts s1 t rest r
           (AList.update (post_id p) (case res of Inr comments \<Rightarrow> length comments | Inl e \<Rightarrow> 0)
              counts) = (counts', s')"
    by (rule settleCounts_step)
  from Cons(3) have ne: "post_id p \<noteq> k" and rest: "k \<notin> post_id ` set rest" by auto
  from Cons(1) [OF rec rest] getPostComments_settle_fresh_other [OF st ne] show ?case
    by simp
qed

lemma processBatch_fresh:
  assumes "\<not> has (postCommentCountCache s) k"
      and "getPostComments_fresh s t k = Some cs"
      and "processBatch s t batch r counts = (counts', s', reqs)"
  shows "map_of counts' k = (if k \<in> post_id ` set batch then Some (length cs) else map_of counts k)"
    and "\<not> has (postCommentCountCache s') k"
    and "getPostComments_fresh s' t' k = getPostComments_fresh s t' k"
proof -
  note sc = processBatch_parts(1) [OF assms(3)]
  have start: "startCount s t p = Inr (Some cs)" if "post_id p = k" for p
    using assms(1,2) that by (simp add: startCount_def)
  have np: "k \<notin> post_id ` set (sort_key (\<lambda>p. commentsArrival r (post_id p))
      (pendingCounts s t batch))"
    using start by (auto simp: pendingCounts_iff)
  have nc: "k \<notin> fst ` set (cachedCounts s t batch)"
  proof
    assume "k \<in> fst ` set (cachedCounts s t batch)"
    then obtain n where "(k, n) \<in> set (cachedCounts s t batch)" by force
    then show False unfolding cachedCounts_iff using start by auto
  qed
  have every: "\<forall>v. (k, v) \<in> set (freshCounts s t batch) \<longrightarrow> v = length cs"
    unfolding freshCounts_iff using start by auto
  have "map_of (setAll (setAll counts (cachedCounts s t batch)) (freshCounts s t batch)) k =
      (if k \<in> post_id ` set batch then Some (length cs) else map_of counts k)"
  proof (cases "k \<in> post_id ` set batch")
    case True
    then obtain p where "p \<in> set batch" "post_id p = k" by blast
    with start [of p] have "(k, length cs) \<in> set (freshCounts s t batch)"
      unfolding freshCounts_iff by blast
    then have "k \<in> fst ` set (freshCounts s t batch)" by force
    from setAll_const [OF this every] True show ?thesis by simp
  next
    case False
    have "k \<notin> fst ` set (freshCounts s t batch)"
    proof
      assume "k \<in> fst ` set (freshCounts s t batch)"
      then obtain n where "(k, n) \<in> set (freshCounts s t batch)" by force
      then show False unfolding freshCounts_iff using False by auto
    qed
    with False nc show ?thesis by (simp add: setAll_other)
  qed
  with settleCounts_other [OF sc np]
  show "map_of counts' k = (if k \<in> post_id ` set batch then Some (length cs) else map_of counts k)"
    by simp
  from settleCounts_other [OF sc np] assms(1)
  show "\<not> has (postCommentCountCache s') k" by simp
  from settleCounts_fresh_other [OF sc np]
  show "getPostComments_fresh s' t' k = getPostComments_fresh s t' k" .
qed

lemma countComments_fresh:
  "\<not> has (postCommentCountCache s) k \<Longrightarrow>
   \<forall>j. getPostComments_fresh s (clock j) k = Some cs \<Longrightarrow>
   countComments i allPosts clock r s counts = (counts', s', reqs) \<Longrightarrow>
     map_of counts' k =
       (if k \<in> post_id ` set (drop i allPosts) then Some (length cs) else map_of counts k)"
proof (induction i allPosts clock r s counts arbitrary: counts' s' reqs rule: countComments.induct)
  case (1 i allPosts clock r s counts)
  show ?case
  proof (cases "i < length allPosts")
    case False
    with 1(4) show ?thesis by (simp add: countComments_done)
  next
    case True
    from 1(4) True obtain c1 s1 q1 q2 where
      pb: "processBatch s (clock i) (take 10 (drop i allPosts)) r counts = (c1, s1, q1)"
      and cc: "countComments (i + 10) allPosts clock r s1 c1 = (counts', s', q2)"
      by (rule countComments_unfold)
    from 1(3) have now: "getPostComments_fresh s (clock i) k = Some cs" by simp
    note f = processBatch_fresh [OF 1(2) now pb]
    from f(3) 1(3) have inv: "\<forall>j. getPostComments_fresh s1 (clock j) k = Some cs"
      by simp
    from 1(1) [OF True pb [symmetric] refl f(2) inv cc] f(1) drop_batch [of i allPosts]
    show ?thesis by (auto simp: image_Un)
  qed
qed

section \<open>Popular posts\<close>

lemma counts_values:
  fixes merged :: "post list"
  assumes "distinct (map fst counts)" and "fst ` set counts = post_id ` set merged"
  shows "snd ` set counts = {c. \<exists>q\<in>set merged. map_of counts (post_id q) = Some c}"
proof (rule set_eqI)
  fix c
  show "c \<in> snd ` set counts \<longleftrightarrow> c \<in> {c. \<exists>q\<in>set merged. map_of counts (post_id q) = Some c}"
  proof
    assume "c \<in> snd ` set counts"
    then obtain k where kc: "(k, c) \<in> set counts" by auto
    then have "k \<in> post_id ` set merged" using assms(2) by force
    then obtain q where "q \<in> set merged" "k = post_id q" by auto
    moreover from kc assms(1) have "map_of counts k = Some c" by simp
    ultimately show "c \<in> {c. \<exists>q\<in>set merged. map_of counts (post_id q) = Some c}" by auto
  next
    assume "c \<in> {c. \<exists>q\<in>set merged. map_of counts (post_id q) = Some c}"
    then obtain q where "q \<in> set merged" "map_of counts (post_id q) = Some c" by blast
    then have "(post_id q, c) \<in> set counts" by (simp add: map_of_SomeD)
    then show "c \<in> snd ` set counts" by force
  qed
qed

lemma getPopularPosts_result:
  assumes "getUsers s t0 r = (Inr us, s1, reqs1)"
      and "ensureAllPosts s1 t1 (map fst us) r = (Inr u, s2, reqs2)"
      and "countComments 0 (allPostsCache s2) clock r s2 [] = (counts, s3, reqs3)"
  shows "getPopularPosts s t0 t1 clock r =
           (Inr (filter (\<lambda>p. map_of counts (post_id p) = Some (maxCommentCount counts))
                   (allPostsCache s3)), s3, reqs1 @ reqs2 @ reqs3)"
  using assms by (simp add: getPopularPosts_def)

lemma threePost_users:
  "getUsers threePostService 2000 upstreamDown = (Inr [(''1'', ''Ann'')], threePostService, [])"
  by (simp add: getUsers_def threePostService_def new_service_def cacheTTL_def)

lemma threePost_ensure:
  "ensureAllPosts threePostService 2000 (map fst [(''1'', ''Ann'')]) upstreamDown =
     (Inr (), threePostService, [])"
  by (simp add: ensureAllPosts_def threePostService_def new_service_def)

lemma counted_users:
  "getUsers countedService 2000 upstreamDown = (Inr [(''1'', ''Ann'')], countedService, [])"
  by (simp add: getUsers_def countedService_def threePostService_def new_service_def cacheTTL_def)

lemma counted_ensure:
  "ensureAllPosts countedService 2000 (map fst [(''1'', ''Ann'')]) upstreamDown =
     (Inr (), countedService, [])"
  by (simp add: ensureAllPosts_def countedService_def threePostService_def new_service_def)

lemma counted_counts:
  "countComments 0 (allPostsCache countedService) (\<lambda>i. 2000) upstreamDown countedService [] =
     ([(1, 2), (2, 5), (3, 5)], countedService, [])"
  by (simp add: countComments_step countComments_done processBatch_def startCount_def
      cachedCounts_def freshCounts_def pendingCounts_def setAll_def has_def
      countedService_def threePostService_def new_service_def stamped_def)

text \<open>
  C4: once the directory is obtained and the merged view is in place, \<open>getPopularPosts\<close>
  returns, in the order of the merged view, exactly the posts whose comment count is the
  maximum over the posts of the view, the maximum of nothing being 0. Every post of the
  view has a count; an empty view gives an empty result; when all counts are equal the
  whole view is returned. The count of a post is the one \<open>postCommentCountCache\<close> holds
  for it; for a post of which neither a count nor comments are stored, the number of
  comments the upstream delivers, and 0 when the request fails; for a post without a
  count whose stored comments are fresh whenever a batch is sent, their number. For posts
  1, 2, 3 with 2, 5 and 5 comments the result is 2, 3.
\<close>

theorem getPopularPosts_maximum_set:
  assumes "getUsers s t0 r = (Inr us, s1, reqs1)"
      and "ensureAllPosts s1 t1 (map fst us) r = (Inr u, s2, reqs2)"
      and "countComments 0 (allPostsCache s2) clock r s2 [] = (counts, s3, reqs3)"
  shows "fst (getPopularPosts s t0 t1 clock r) =
           Inr (filter (\<lambda>p. map_of counts (post_id p) =
                          Some (Max (insert 0 {c. \<exists>q\<in>set (allPostsCache s2).
                                                 map_of counts (post_id q) = Some c})))
                  (allPostsCache s2)) \<and>
         (\<forall>p\<in>set (allPostsCache s2). \<exists>c. map_of counts (post_id p) = Some c) \<and>
         (allPostsCache s2 = [] \<longrightarrow> fst (getPopularPosts s t0 t1 clock r) = Inr []) \<and>
         ((\<forall>p\<in>set (allPostsCache s2). \<forall>q\<in>set (allPostsCache s2).
             map_of counts (post_id p) = map_of counts (post_id q)) \<longrightarrow>
            fst (getPopularPosts s t0 t1 clock r) = Inr (allPostsCache s2)) \<and>
         (\<forall>p\<in>set (allPostsCache s2). \<forall>c.
            map_of (postCommentCountCache s2) (post_id p) = Some c \<longrightarrow>
              map_of counts (post_id p) = Some c) \<and>
         (\<forall>p\<in>set (allPostsCache s2). \<forall>cs.
            \<not> has (postCommentCountCache s2) (post_id p) \<and>
            \<not> has (commentsCache s2) (post_id p) \<and> fetchComments r (post_id p) = Some cs \<longrightarrow>
              map_of counts (post_id p) = Some (length cs)) \<and>
         (\<forall>p\<in>set (allPostsCache s2).
            \<not> has (postCommentCountCache s2) (post_id p) \<and>
            \<not> has (commentsCache s2) (post_id p) \<and> fetchComments r (post_id p) = None \<longrightarrow>
              map_of counts (post_id p) = Some 0) \<and>
         (\<forall>p\<in>set (allPostsCache s2). \<forall>cs.
            \<not> has (postCommentCountCache s2) (post_id p) \<and>
            (\<forall>i. getPostComments_fresh s2 (clock i) (post_id p) = Some cs) \<longrightarrow>
              map_of counts (post_id p) = Some (length cs)) \<and>
         fst (getPopularPosts new_service 1000 1001 (\<lambda>i. 1002) popularUpstream) =
           Inr [\<lparr> post_id = 2, userid = 1, content = [], timestamp = Some 1001 \<rparr>,
                \<lparr> post_id = 3, userid = 1, content = [], timestamp = Some 1001 \<rparr>]"
proof -
  let ?merged = "allPostsCache s2"
  let ?vals = "{c. \<exists>q\<in>set ?merged. map_of counts (post_id q) = Some c}"
  from countComments_keys [OF assms(3)]
  have keys: "fst ` set counts = post_id ` set ?merged"
    and dist: "distinct (map fst counts)"
    and same: "allPostsCache s3 = ?merged"
    by simp_all
  have vals: "snd ` set counts = ?vals"
    by (rule counts_values [OF dist keys])
  have res: "fst (getPopularPosts s t0 t1 clock r) =
      Inr (filter (\<lambda>p. map_of counts (post_id p) = Some (Max (insert 0 ?vals))) ?merged)"
    by (simp add: getPopularPosts_result [OF assms] maxCommentCount_Max vals same)
  have every: "\<forall>p\<in>set ?merged. \<exists>c. map_of counts (post_id p) = Some c"
  proof
    fix p assume "p \<in> set ?merged"
    then have "post_id p \<in> fst ` set counts" using keys by simp
    then show "\<exists>c. map_of counts (post_id p) = Some c"
      by (metis map_of_eq_None_iff not_None_eq)
  qed
  have allsame: "fst (getPopularPosts s t0 t1 clock r) = Inr ?merged"
    if eq: "\<forall>p\<in>set ?merged. \<forall>q\<in>set ?merged. map_of counts (post_id p) = map_of counts (post_id q)"
  proof -
    have "map_of counts (post_id p) = Some (Max (insert 0 ?vals))" if p: "p \<in> set ?merged" for p
    proof -
      from every p obtain c where c: "map_of counts (post_id p) = Some c" by auto
      have "?vals = {c}"
      proof (rule set_eqI)
        fix x
        show "x \<in> ?vals \<longleftrightarrow> x \<in> {c}"
        proof
          assume "x \<in> ?vals"
          then obtain q where q: "q \<in> set ?merged" "map_of counts (post_id q) = Some x"
            by blast
          from eq p q(1) have "map_of counts (post_id p) = map_of counts (post_id q)"
            by blast
          with c q(2) show "x \<in> {c}" by simp
        next
          assume "x \<in> {c}"
          with p c show "x \<in> ?vals" by blast
        qed
      qed
      then have "Max (insert 0 ?vals) = c" by simp
      with c show ?thesis by (simp only:)
    qed
    then have "filter (\<lambda>p. map_of counts (post_id p) = Some (Max (insert 0 ?vals))) ?merged = ?merged"
      by (intro filter_True ballI)
    with res show ?thesis by (simp only:)
  qed
  have empty: "fst (getPopularPosts s t0 t1 clock r) = Inr []" if "?merged = []"
    using res that by simp
  have cached: "\<forall>p\<in>set ?merged. \<forall>c.
            map_of (postCommentCountCache s2) (post_id p) = Some c \<longrightarrow>
              map_of counts (post_id p) = Some c"
  proof (intro ballI allI impI)
    fix p c
    assume p: "p \<in> set ?merged" and c: "map_of (postCommentCountCache s2) (post_id p) = Some c"
    from countComments_cached [OF c assms(3)] p
    show "map_of counts (post_id p) = Some c" by simp
  qed
  have fetched: "\<forall>p\<in>set ?merged. \<forall>cs.
            \<not> has (postCommentCountCache s2) (post_id p) \<and>
            \<not> has (commentsCache s2) (post_id p) \<and> fetchComments r (post_id p) = Some cs \<longrightarrow>
              map_of counts (post_id p) = Some (length cs)"
  proof (intro ballI allI impI)
    fix p cs
    assume p: "p \<in> set ?merged"
      and f: "\<not> has (postCommentCountCache s2) (post_id p) \<and>
            \<not> has (commentsCache s2) (post_id p) \<and> fetchComments r (post_id p) = Some cs"
    from f have f1: "\<not> has (postCommentCountCache s2) (post_id p)"
      and f2: "\<not> has (commentsCache s2) (post_id p)"
      and f3: "fetchComments r (post_id p) = Some cs"
      by simp_all
    from countComments_fetched [OF f1 f2 f3 assms(3)] p
    show "map_of counts (post_id p) = Some (length cs)" by simp
  qed
  have failed: "\<forall>p\<in>set ?merged.
            \<not> has (postCommentCountCache s2) (post_id p) \<and>
            \<not> has (commentsCache s2) (post_id p) \<and> fetchComments r (post_id p) = None \<longrightarrow>
              map_of counts (post_id p) = Some 0"
  proof (intro ballI impI)
    fix p
    assume p: "p \<in> set ?merged"
      and f: "\<not> has (postCommentCountCache s2) (post_id p) \<and>
            \<not> has (commentsCache s2) (post_id p) \<and> fetchComments r (post_id p) = None"
    from f have f1: "\<not> has (postCommentCountCache s2) (post_id p)"
      and f2: "\<not> has (commentsCache s2) (post_id p)"
      and f3: "fetchComments r (post_id p) = None"
      by simp_all
    from countComments_failing [OF f3 f1 f2 assms(3)] p
    show "map_of counts (post_id p) = Some 0" by simp
  qed
  have fresh: "\<forall>p\<in>set ?merged. \<forall>cs.
            \<not> has (postCommentCountCache s2) (post_id p) \<and>
            (\<forall>i. getPostComments_fresh s2 (clock i) (post_id p) = Some cs) \<longrightarrow>
              map_of counts (post_id p) = Some (length cs)"
  proof (intro ballI allI impI)
    fix p cs
    assume p: "p \<in> set ?merged"
      and f: "\<not> has (postCommentCountCache s2) (post_id p) \<and>
            (\<forall>i. getPostComments_fresh s2 (clock i) (post_id p) = Some cs)"
    from f have f1: "\<not> has (postCommentCountCache s2) (post_id p)"
      and f2: "\<forall>i. getPostComments_fresh s2 (clock i) (post_id p) = Some cs"
      by simp_all
    from countComments_fresh [OF f1 f2 assms(3)] p
    show "map_of counts (post_id p) = Some (length cs)" by simp
  qed
  have ex: "fst (getPopularPosts new_service 1000 1001 (\<lambda>i. 1002) popularUpstream) =
           Inr [\<lparr> post_id = 2, userid = 1, content = [], timestamp = Some 1001 \<rparr>,
                \<lparr> post_id = 3, userid = 1, content = [], timestamp = Some 1001 \<rparr>]"
  proof -
    have ps: "postsOf 1 1 3 =
       [\<lparr> post_id = 1, userid = 1, content = [], timestamp = None \<rparr>,
        \<lparr> post_id = 2, userid = 1, content = [], timestamp = None \<rparr>,
        \<lparr> post_id = 3, userid = 1, content = [], timestamp = None \<rparr>]"
      by code_simp
    have len: "length (commentsOf p n) = n" for p n
      by (simp add: commentsOf_def)
    show ?thesis
      by (simp add: getPopularPosts_def getUsers_def ensureAllPosts_def allUserPosts_def
        freshPosts_def pendingPosts_def
        getUserPosts_fresh_def getUserPosts_settle_def firstFailure_def countComments_step
        countComments_done processBatch_def cachedCounts_def freshCounts_def pendingCounts_def
        setAll_def startCount_def getPostComments_fresh_def
        getPostComments_settle_def has_def maxCommentCount_def new_service_def
        popularUpstream_def ps len parseInt10_1 cacheTTL_def Let_def)
  qed
  show ?thesis
  proof (intro conjI impI)
    show "fst (getPopularPosts s t0 t1 clock r) =
      Inr (filter (\<lambda>p. map_of counts (post_id p) = Some (Max (insert 0 ?vals))) ?merged)"
      by (rule res)
  qed (rule every, erule empty, erule allsame, rule cached, rule fetched, rule failed, rule fresh,
      rule ex)
qed

theorem getPopularPosts_maximum_set_witness:
  "fst (getPopularPosts countedService 2000 2000 (\<lambda>i. 2000) upstreamDown) =
     Inr [stamped 2 300, stamped 3 200] \<and>
   fst (getPopularPosts threePostService 2000 2000 (\<lambda>i. 2000) upstreamDown) =
     Inr [stamped 1 100, stamped 2 300, stamped 3 200]"
proof -
  let ?counts = "[(1, 2), (2, 5), (3, 5)] :: (int \<times> nat) list"
  obtain counts0 s3 reqs3 where c0:
      "countComments 0 (allPostsCache threePostService) (\<lambda>i. 2000) upstreamDown threePostService [] =
         (counts0, s3, reqs3)"
    by (cases "countComments 0 (allPostsCache threePostService) (\<lambda>i. 2000) upstreamDown
          threePostService []")
  note T = getPopularPosts_maximum_set [OF counted_users counted_ensure counted_counts]
  note U = getPopularPosts_maximum_set [OF threePost_users threePost_ensure c0]
  have merged: "allPostsCache countedService = [stamped 1 100, stamped 2 300, stamped 3 200]"
    by (simp add: countedService_def threePostService_def)
  have vals: "{c. \<exists>q\<in>set (allPostsCache countedService). map_of ?counts (post_id q) = Some c} =
      {2, 5}"
    by (auto simp: merged stamped_def)
  from T have "fst (getPopularPosts countedService 2000 2000 (\<lambda>i. 2000) upstreamDown) =
      Inr (filter (\<lambda>p. map_of ?counts (post_id p) =
             Some (Max (insert 0 {c. \<exists>q\<in>set (allPostsCache countedService).
                                    map_of ?counts (post_id q) = Some c})))
             (allPostsCache countedService))"
    by blast
  then have A: "fst (getPopularPosts countedService 2000 2000 (\<lambda>i. 2000) upstreamDown) =
     Inr [stamped 2 300, stamped 3 200]"
    unfolding vals by (simp add: merged stamped_def)
  have zero: "map_of counts0 (post_id p) = Some 0" if "p \<in> set (allPostsCache threePostService)"
    for p
  proof -
    have "\<not> has (postCommentCountCache threePostService) (post_id p) \<and>
        \<not> has (commentsCache threePostService) (post_id p) \<and>
        fetchComments upstreamDown (post_id p) = None"
      by (simp add: threePostService_def new_service_def has_def upstreamDown_def)
    with U that show ?thesis by blast
  qed
  then have "\<forall>p\<in>set (allPostsCache threePostService). \<forall>q\<in>set (allPostsCache threePostService).
      map_of counts0 (post_id p) = map_of counts0 (post_id q)"
    by simp
  with U have "fst (getPopularPosts threePostService 2000 2000 (\<lambda>i. 2000) upstreamDown) =
      Inr (allPostsCache threePostService)"
    by blast
  then have B: "fst (getPopularPosts threePostService 2000 2000 (\<lambda>i. 2000) upstreamDown) =
     Inr [stamped 1 100, stamped 2 300, stamped 3 200]"
    by (simp add: threePostService_def)
  from A B show ?thesis by (intro conjI)
qed

section \<open>Latest posts\<close>

lemma byTimestamp_key: "byTimestamp = (\<lambda>a b. timestampOr0 b - timestampOr0 a)"
  by (simp add: byTimestamp_def fun_eq_iff)

lemma sortBy_byTimestamp:
  "mset (sortBy byTimestamp xs) = mset xs"
  "sorted_wrt (\<lambda>a b. timestampOr0 b \<le> timestampOr0 a) (sortBy byTimestamp xs)"
  "filter (\<lambda>p. timestampOr0 p = t) (sortBy byTimestamp xs) = filter (\<lambda>p. timestampOr0 p = t) xs"
  using sortBy_mset [of timestampOr0 xs] sortBy_descending [of timestampOr0 xs]
    sortBy_stable [of timestampOr0 t xs]
  by (simp_all add: byTimestamp_key)

lemma getLatestPosts_result:
  assumes "getUsers s t0 r = (Inr us, s1, reqs1)"
      and "ensureAllPosts s1 t1 (map fst us) r = (Inr u, s2, reqs2)"
  shows "getLatestPosts s t0 t1 limit r =
           (Inr (slice0 (case limit of None \<Rightarrow> Num 5 | Some l \<Rightarrow> l)
                   (sortBy byTimestamp (allPostsCache s2))), s2, reqs1 @ reqs2)"
  using assms by (simp add: getLatestPosts_def)

lemma threePost_ranked:
  "sortBy byTimestamp (allPostsCache threePostService) =
     [stamped 2 300, stamped 3 200, stamped 1 100]"
  by (simp add: sortBy_def byTimestamp_def timestampOr0_def threePostService_def
      new_service_def stamped_def)

text \<open>
  C5: once the directory is obtained and the merged view is in place, \<open>getLatestPosts\<close>
  returns the first \<open>limit\<close> posts (the first 5 when the argument is omitted) of the
  merged view sorted by descending timestamp, posts with equal timestamps in the order of
  the view. For posts stamped 100, 300 and 200 and \<open>limit = 2\<close> the result is the post
  stamped 300, then the post stamped 200.
\<close>

theorem getLatestPosts_ordering:
  assumes "getUsers s t0 r = (Inr us, s1, reqs1)"
      and "ensureAllPosts s1 t1 (map fst us) r = (Inr u, s2, reqs2)"
      and "0 \<le> n"
  shows "fst (getLatestPosts s t0 t1 (Some (Num n)) r) =
           Inr (take (nat n) (sortBy byTimestamp (allPostsCache s2))) \<and>
         fst (getLatestPosts s t0 t1 None r) =
           Inr (take 5 (sortBy byTimestamp (allPostsCache s2))) \<and>
         mset (sortBy byTimestamp (allPostsCache s2)) = mset (allPostsCache s2) \<and>
         sorted_wrt (\<lambda>a b. timestampOr0 b \<le> timestampOr0 a)
           (sortBy byTimestamp (allPostsCache s2)) \<and>
         (\<forall>t. filter (\<lambda>p. timestampOr0 p = t) (sortBy byTimestamp (allPostsCache s2)) =
               filter (\<lambda>p. timestampOr0 p = t) (allPostsCache s2)) \<and>
         fst (getLatestPosts threePostService 2000 2000 (Some (Num 2)) upstreamDown) =
           Inr [stamped 2 300, stamped 3 200]"
proof -
  have ex: "fst (getLatestPosts threePostService 2000 2000 (Some (Num 2)) upstreamDown) =
           Inr [stamped 2 300, stamped 3 200]"
    using getLatestPosts_result [OF threePost_users threePost_ensure, of "Some (Num 2)"]
    by (simp add: threePost_ranked slice0_def)
  show ?thesis
    using assms(3) getLatestPosts_result [OF assms(1,2)] ex
    by (simp add: slice0_take sortBy_byTimestamp)
qed

theorem getLatestPosts_ordering_witness:
  "fst (getLatestPosts threePostService 2000 2000 (Some (Num 1)) upstreamDown) =
     Inr [stamped 2 300] \<and>
   fst (getLatestPosts threePostService 2000 2000 None upstreamDown) =
     Inr [stamped 2 300, stamped 3 200, stamped 1 100]"
proof -
  have n: "(0::int) \<le> 1" by simp
  show ?thesis
    using getLatestPosts_ordering [OF threePost_users threePost_ensure n]
    by (simp add: threePost_ranked)
qed

section \<open>When the posts of the owners are looked up\<close>

lemmas eval_defs = getTopUsers_def getUsers_def topUsers_postCounts_def allUserPosts_def
  freshPosts_def pendingPosts_def setAll_def
  getUserPosts_fresh_def getUserPosts_settle_def recordPostCounts_def topUsers_entries_def
  sortBy_def byPostCount_def slice0_def has_def Let_def cacheTTL_def parseInt10_1 parseInt10_2
  getLatestPosts_def ensureAllPosts_def firstFailure_def byTimestamp_def timestampOr0_def
  getPopularPosts_def countComments_step countComments_done processBatch_def
  cachedCounts_def freshCounts_def pendingCounts_def startCount_def
  getPostComments_fresh_def getPostComments_settle_def maxCommentCount_def





lemma twoUsers_first:
  "getUsers new_service 1000 annOnly =
     (Inr twoUsers, new_service\<lparr>usersCache := twoUsers, lastUsersFetch := 1000\<rparr>, [ReqUsers])"
  by (simp add: getUsers_def new_service_def annOnly_def)


lemma halfLoaded_users:
  "getUsers halfLoaded 2000 annAndBob = (Inr twoUsers, halfLoaded, [])"
  by (simp add: getUsers_def halfLoaded_def new_service_def twoUsers_def cacheTTL_def)







section \<open>The limit of getTopUsers\<close>

lemma getTopUsers_fails:
  "fst (getUsers s t0 r) = Inl e \<Longrightarrow> fst (getTopUsers s t0 t1 limit r) = Inl e"
  by (cases "getUsers s t0 r") (auto simp: getTopUsers_def)

text \<open>
  C9, as stated, fails: nothing validates \<open>limit\<close>. With limit 0 the service returns the
  empty list, with limit -1 the ranking without its last entry, and the controller answers
  200 to \<open>limit=0\<close> and to \<open>limit=abc\<close>.
\<close>

theorem nonpositive_limit_answered:
  "fst (getTopUsers new_service 1000 1001 (Some (Num 0)) abcUpstream) = Inr [] \<and>
   fst (getTopUsers new_service 1000 1001 (Some (Num (- 1))) abcUpstream) =
     Inr [\<lparr> user_id = ''B'', name = Some ''Bob'', postCount = 5 \<rparr>,
          \<lparr> user_id = ''C'', name = Some ''Carol'', postCount = 5 \<rparr>] \<and>
   fst (getTopUsers_controller new_service 1000 1001 (Some ''0'') abcUpstream) = Status200 [] \<and>
   fst (getTopUsers_controller new_service 1000 1001 (Some ''abc'') abcUpstream) = Status200 []"
  by code_simp

text \<open>
  C9, amended: \<open>getTopUsers\<close> fails only when \<open>getUsers\<close> fails, with that failure.
  Whenever the directory is obtained it returns \<open>slice(0, limit)\<close> of the ranking for every
  limit, and the controller answers 200 with it: the first \<open>limit\<close> entries for a positive
  integer, the empty list for 0 and for \<open>NaN\<close>, the ranking without its last \<open>-limit\<close>
  entries for a negative integer.
\<close>

theorem getTopUsers_limit_not_validated:
  "(\<forall>e. fst (getUsers s t0 r) = Inl e \<longrightarrow> fst (getTopUsers s t0 t1 limit r) = Inl e) \<and>
   (getUsers s t0 r = (Inr us, s1, reqs1) \<and>
    ranking = sortBy byPostCount
                (topUsers_entries us (fst (topUsers_postCounts s1 t1 (map fst us) r))) \<longrightarrow>
      fst (getTopUsers s t0 t1 (Some l) r) = Inr (slice0 l ranking) \<and>
      fst (getTopUsers_controller s t0 t1 q r) = Status200 (slice0 (queryLimit q) ranking) \<and>
      slice0 NaN ranking = [] \<and> slice0 (Num 0) ranking = [] \<and>
      (n < 0 \<longrightarrow> slice0 (Num n) ranking = take (length ranking - nat (- n)) ranking) \<and>
      (0 < n \<longrightarrow> slice0 (Num n) ranking = take (nat n) ranking))"
proof (intro conjI allI impI)
  fix e assume "fst (getUsers s t0 r) = Inl e"
  then show "fst (getTopUsers s t0 t1 limit r) = Inl e" by (rule getTopUsers_fails)
next
  assume a: "getUsers s t0 r = (Inr us, s1, reqs1) \<and>
    ranking = sortBy byPostCount
                (topUsers_entries us (fst (topUsers_postCounts s1 t1 (map fst us) r)))"
  then have u: "getUsers s t0 r = (Inr us, s1, reqs1)" and rk: "ranking = sortBy byPostCount
                (topUsers_entries us (fst (topUsers_postCounts s1 t1 (map fst us) r)))"
    by simp_all
  have rk0: "fst (topUsers_postCounts s1 t1 (map fst us) r) =
      fst (topUsers_postCounts s1 t1 (map fst us) r)"
    by (rule refl)
  show l: "fst (getTopUsers s t0 t1 (Some l) r) = Inr (slice0 l ranking)" for l
    using getTopUsers_result [OF u rk0, where limit = "Some l"] rk by simp
  from l [of "queryLimit q"]
  show "fst (getTopUsers_controller s t0 t1 q r) = Status200 (slice0 (queryLimit q) ranking)"
    by (cases "getTopUsers s t0 t1 (Some (queryLimit q)) r")
       (simp add: getTopUsers_controller_def)
  show "slice0 NaN ranking = []" "slice0 (Num 0) ranking = []"
    by (simp_all add: slice0_def)
  show "slice0 (Num n) ranking = take (length ranking - nat (- n)) ranking" if "n < 0"
  proof -
    have "nat (int (length ranking) + n) = length ranking - nat (- n)"
      using that by arith
    with that show ?thesis by (simp add: slice0_def)
  qed
  show "slice0 (Num n) ranking = take (nat n) ranking" if "0 < n"
    using that by (simp add: slice0_def)
qed

theorem getTopUsers_limit_not_validated_witness:
  "fst (getTopUsers new_service 1000 1001 (Some (Num (- 2))) abcUpstream) =
     Inr [\<lparr> user_id = ''B'', name = Some ''Bob'', postCount = 5 \<rparr>] \<and>
   fst (getTopUsers_controller new_service 1000 1001 (Some ''abc'') abcUpstream) = Status200 [] \<and>
   fst (getTopUsers new_service 1000 1001 (Some (Num 3)) upstreamDown) =
     Inl (FetchFailure ReqUsers)"
proof -
  let ?ranking = "[\<lparr> user_id = ''B'', name = Some ''Bob'', postCount = 5 \<rparr>,
      \<lparr> user_id = ''C'', name = Some ''Carol'', postCount = 5 \<rparr>,
      \<lparr> user_id = ''A'', name = Some ''Alice'', postCount = 3 \<rparr>]"
  have rk: "?ranking = sortBy byPostCount (topUsers_entries abcDirectory
      (fst (topUsers_postCounts (new_service\<lparr>usersCache := abcDirectory, lastUsersFetch := 1000\<rparr>)
         1001 (map fst abcDirectory) abcUpstream)))"
    by (simp only: abc_counts abc_ranked)
  have q: "queryLimit (Some ''abc'') = NaN"
    by code_simp
  have down: "fst (getUsers new_service 1000 upstreamDown) = Inl (FetchFailure ReqUsers)"
    by (simp add: getUsers_def new_service_def upstreamDown_def)
  note t1 = getTopUsers_limit_not_validated [where s = new_service and ?t0.0 = 1000
      and r = abcUpstream and us = abcDirectory
      and ?s1.0 = "new_service\<lparr>usersCache := abcDirectory, lastUsersFetch := 1000\<rparr>"
      and ?reqs1.0 = "[ReqUsers]" and ranking = ?ranking and ?t1.0 = 1001
      and l = "Num (- 2)" and q = "Some ''abc''" and n = "- 2"]
  note t2 = getTopUsers_limit_not_validated [where s = new_service and ?t0.0 = 1000
      and r = upstreamDown and limit = "Some (Num 3)" and ?t1.0 = 1001]
  from t1 abc_users rk
  have A: "fst (getTopUsers new_service 1000 1001 (Some (Num (- 2))) abcUpstream) =
      Inr (slice0 (Num (- 2)) ?ranking)"
    and B: "fst (getTopUsers_controller new_service 1000 1001 (Some ''abc'') abcUpstream) =
      Status200 (slice0 (queryLimit (Some ''abc'')) ?ranking)"
    by blast+
  from t2 down
  have C: "fst (getTopUsers new_service 1000 1001 (Some (Num 3)) upstreamDown) =
     Inl (FetchFailure ReqUsers)"
    by blast
  from A B C show ?thesis
    by (simp add: q slice0_def)
qed

section \<open>The merged view\<close>

lemma getUserPosts_refresh:
  assumes "getUserPosts_fresh s t userId = None" and "fetchPosts r userId = Some ps"
  shows "getUserPosts s t userId r =
      (Inr (map (\<lambda>p. p\<lparr>timestamp := Some t\<rparr>) ps),
       s\<lparr>postsCache := AList.update (parseInt10 userId) (map (\<lambda>p. p\<lparr>timestamp := Some t\<rparr>) ps)
                         (postsCache s),
         lastPostsFetch := AList.update (parseInt10 userId) t (lastPostsFetch s),
         userPostCountCache := AList.update userId (length ps) (userPostCountCache s),
         allPostsCache := filter (\<lambda>p. Num (userid p) \<noteq> parseInt10 userId) (allPostsCache s) @
                          map (\<lambda>p. p\<lparr>timestamp := Some t\<rparr>) ps\<rparr>,
       [ReqPosts userId])"
  using assms by (simp add: getUserPosts_def getUserPosts_settle_def Let_def)

lemma distinct_replace:
  fixes merged :: "post list"
  assumes "distinct (map (\<lambda>p. (post_id p, userid p)) merged)"
      and "\<forall>p\<in>set ps. Num (userid p) = k"
      and "distinct (map post_id ps)"
  shows "distinct (map (\<lambda>p. (post_id p, userid p))
           (filter (\<lambda>p. Num (userid p) \<noteq> k) merged @ map (\<lambda>p. p\<lparr>timestamp := Some t\<rparr>) ps))"
proof -
  have 1: "distinct (map (\<lambda>p. (post_id p, userid p)) (filter (\<lambda>p. Num (userid p) \<noteq> k) merged))"
    using assms(1) by (simp add: distinct_map_filter)
  have 2: "distinct (map (\<lambda>p. (post_id p, userid p)) (map (\<lambda>p. p\<lparr>timestamp := Some t\<rparr>) ps))"
  proof -
    from assms(3) have d: "distinct ps" and i: "inj_on post_id (set ps)"
      by (simp_all add: distinct_map)
    from i have "inj_on (\<lambda>p. (post_id p, userid p)) (set ps)"
      by (auto simp: inj_on_def)
    with d have "distinct (map (\<lambda>p. (post_id p, userid p)) ps)"
      by (simp add: distinct_map)
    then show ?thesis by (simp add: comp_def)
  qed
  have 3: "set (map (\<lambda>p. (post_id p, userid p)) (filter (\<lambda>p. Num (userid p) \<noteq> k) merged)) \<inter>
           set (map (\<lambda>p. (post_id p, userid p)) (map (\<lambda>p. p\<lparr>timestamp := Some t\<rparr>) ps)) = {}"
    using assms(2) by auto
  from 1 2 3 show ?thesis by simp
qed

lemma getUserPosts_again:
  assumes "getUserPosts_fresh s t userId = None" and "fetchPosts r userId = Some ps"
      and "getUserPosts s t userId r = (res, s', reqs)" and "t' - t < cacheTTL"
  shows "getUserPosts s' t' userId r' = (res, s', [])"
proof -
  from getUserPosts_refresh [OF assms(1,2)] assms(3)
  have res: "res = Inr (map (\<lambda>p. p\<lparr>timestamp := Some t\<rparr>) ps)"
    and pc: "postsCache s' = AList.update (parseInt10 userId) (map (\<lambda>p. p\<lparr>timestamp := Some t\<rparr>) ps)
                         (postsCache s)"
    and lf: "lastPostsFetch s' = AList.update (parseInt10 userId) t (lastPostsFetch s)"
    by auto
  have "getUserPosts s' t' userId r' = (Inr (map (\<lambda>p. p\<lparr>timestamp := Some t\<rparr>) ps), s', [])"
    by (rule getUserPosts_fresh_hit [where stored = t])
       (simp_all add: pc lf update_conv' assms(4))
  then show ?thesis by (simp add: res)
qed

text \<open>
  C6, as stated, fails for an owner id that is not a number: the refresh keeps the posts
  whose \<open>userid !== parseInt(userId, 10)\<close>, and every number is \<open>!== NaN\<close>, so nothing
  is removed. Refreshing owner \<open>A\<close> again after the TTL leaves her post in the merged
  view twice.
\<close>

theorem non_numeric_owner_duplicated:
  "parseInt10 ''A'' = NaN \<and>
   allPostsCache (fst (snd (getUserPosts new_service 1000 ''A'' aliceOnly))) =
     [postA\<lparr>timestamp := Some 1000\<rparr>] \<and>
   allPostsCache (fst (snd (getUserPosts
       (fst (snd (getUserPosts new_service 1000 ''A'' aliceOnly))) 40000 ''A'' aliceOnly))) =
     [postA\<lparr>timestamp := Some 1000\<rparr>, postA\<lparr>timestamp := Some 40000\<rparr>]"
  by (simp add: getUserPosts_def getUserPosts_fresh_def getUserPosts_settle_def has_def Let_def
      new_service_def aliceOnly_def postA_def parseInt10_A cacheTTL_def)

text \<open>
  C6, amended: a successful refresh of owner X sets the merged view to the old view without
  the posts whose \<open>userid\<close> is \<open>parseInt(X, 10)\<close>, followed by the fetched posts with
  their new timestamp. When every fetched post carries that \<open>userid\<close> and the fetched ids
  are distinct, a merged view without two entries of the same id and owner stays so. A
  second lookup of X less than the TTL after the refresh returns the same posts, sends no
  request and leaves the service, hence the merged view, unchanged.
\<close>

theorem refresh_replaces_owner:
  assumes "getUserPosts_fresh s t userId = None"
      and "fetchPosts r userId = Some ps"
      and "getUserPosts s t userId r = (res, s', reqs)"
  shows "allPostsCache s' =
           filter (\<lambda>p. Num (userid p) \<noteq> parseInt10 userId) (allPostsCache s) @
           map (\<lambda>p. p\<lparr>timestamp := Some t\<rparr>) ps \<and>
         (distinct (map (\<lambda>p. (post_id p, userid p)) (allPostsCache s)) \<and>
          (\<forall>p\<in>set ps. Num (userid p) = parseInt10 userId) \<and> distinct (map post_id ps) \<longrightarrow>
            distinct (map (\<lambda>p. (post_id p, userid p)) (allPostsCache s'))) \<and>
         (t' - t < cacheTTL \<longrightarrow> getUserPosts s' t' userId r' = (res, s', []))"
proof -
  from getUserPosts_refresh [OF assms(1,2)] assms(3)
  have view: "allPostsCache s' =
           filter (\<lambda>p. Num (userid p) \<noteq> parseInt10 userId) (allPostsCache s) @
           map (\<lambda>p. p\<lparr>timestamp := Some t\<rparr>) ps"
    by auto
  have "distinct (map (\<lambda>p. (post_id p, userid p)) (allPostsCache s'))"
    if "distinct (map (\<lambda>p. (post_id p, userid p)) (allPostsCache s))"
      and "\<forall>p\<in>set ps. Num (userid p) = parseInt10 userId" and "distinct (map post_id ps)"
    unfolding view using that by (rule distinct_replace)
  moreover have "getUserPosts s' t' userId r' = (res, s', [])" if "t' - t < cacheTTL"
    using assms that by (rule getUserPosts_again)
  ultimately show ?thesis using view by blast
qed

theorem refresh_replaces_owner_witness:
  "allPostsCache (fst (snd (getUserPosts warmService 40000 ''1'' annPosts))) =
     [post7\<lparr>timestamp := Some 40000\<rparr>] \<and>
   distinct (map (\<lambda>p. (post_id p, userid p))
     (allPostsCache (fst (snd (getUserPosts warmService 40000 ''1'' annPosts))))) \<and>
   getUserPosts (fst (snd (getUserPosts warmService 40000 ''1'' annPosts))) 69999 ''1'' upstreamDown =
     (fst (getUserPosts warmService 40000 ''1'' annPosts),
      fst (snd (getUserPosts warmService 40000 ''1'' annPosts)), [])"
proof -
  have stale: "getUserPosts_fresh warmService 40000 ''1'' = None"
    by (simp add: getUserPosts_fresh_def has_def warmService_def parseInt10_1 cacheTTL_def)
  have ok: "fetchPosts annPosts ''1'' = Some [post7]"
    by (simp add: annPosts_def)
  have run: "getUserPosts warmService 40000 ''1'' annPosts =
      (fst (getUserPosts warmService 40000 ''1'' annPosts),
       fst (snd (getUserPosts warmService 40000 ''1'' annPosts)),
       snd (snd (getUserPosts warmService 40000 ''1'' annPosts)))"
    by simp
  have pre: "distinct (map (\<lambda>p. (post_id p, userid p)) (allPostsCache warmService)) \<and>
      (\<forall>p\<in>set [post7]. Num (userid p) = parseInt10 ''1'') \<and> distinct (map post_id [post7])"
    by (simp add: warmService_def post7_def parseInt10_1)
  have ttl: "(69999::int) - 40000 < cacheTTL"
    by (simp add: cacheTTL_def)
  have view: "filter (\<lambda>p. Num (userid p) \<noteq> parseInt10 ''1'') (allPostsCache warmService) @
      map (\<lambda>p. p\<lparr>timestamp := Some 40000\<rparr>) [post7] = [post7\<lparr>timestamp := Some 40000\<rparr>]"
    by (simp add: warmService_def post7_def parseInt10_1)
  note T = refresh_replaces_owner [OF stale ok run, where t' = 69999 and r' = upstreamDown]
  from T have "allPostsCache (fst (snd (getUserPosts warmService 40000 ''1'' annPosts))) =
      filter (\<lambda>p. Num (userid p) \<noteq> parseInt10 ''1'') (allPostsCache warmService) @
      map (\<lambda>p. p\<lparr>timestamp := Some 40000\<rparr>) [post7]"
    by blast
  then have A: "allPostsCache (fst (snd (getUserPosts warmService 40000 ''1'' annPosts))) =
      [post7\<lparr>timestamp := Some 40000\<rparr>]"
    by (simp only: view)
  from T pre have B: "distinct (map (\<lambda>p. (post_id p, userid p))
      (allPostsCache (fst (snd (getUserPosts warmService 40000 ''1'' annPosts)))))"
    by blast
  from T ttl have C: "getUserPosts (fst (snd (getUserPosts warmService 40000 ''1'' annPosts)))
      69999 ''1'' upstreamDown =
     (fst (getUserPosts warmService 40000 ''1'' annPosts),
      fst (snd (getUserPosts warmService 40000 ''1'' annPosts)), [])"
    by blast
  from A B C show ?thesis by (intro conjI)
qed

section \<open>Lookups that fail inside an aggregation\<close>

lemma getTopUsers_returns:
  "getUsers s t0 r = (Inr us, s1, reqs1) \<Longrightarrow>
     \<exists>topUsers s' reqs. getTopUsers s t0 t1 limit r = (Inr topUsers, s', reqs)"
  by (simp add: getTopUsers_def split: prod.splits)

text \<open>
  C8, as stated, fails where a value is cached under the key of the id whose request fails:
  \<open>getUserPosts\<close> then answers from that value and its length is counted, not 0. The
  key of a user's posts is \<open>parseInt(userId, 10)\<close>, so user \<open>B\<close>, whose request fails,
  is counted with the post of user \<open>A\<close>, stored under the same key \<open>NaN\<close>, whether that
  post was stored by an earlier call or by the same one.
\<close>

theorem failed_fetch_counted_from_cache:
  "fetchPosts aliceAndBob ''B'' = None \<and>
   fst (getTopUsers (fst (snd (getTopUsers new_service 1000 1001 None aliceOnly)))
          50000 50001 None aliceAndBob) =
     Inr [\<lparr> user_id = ''A'', name = Some ''Alice'', postCount = 1 \<rparr>,
          \<lparr> user_id = ''B'', name = Some ''Bob'', postCount = 1 \<rparr>] \<and>
   fst (getTopUsers new_service 1000 1001 None aliceAndBob) =
     Inr [\<lparr> user_id = ''A'', name = Some ''Alice'', postCount = 1 \<rparr>,
          \<lparr> user_id = ''B'', name = Some ''Bob'', postCount = 1 \<rparr>]"
  by (simp add: eval_defs parseInt10_A parseInt10_B new_service_def aliceOnly_def
      aliceAndBob_def postA_def)

text \<open>
  C8, amended: provided the directory is obtained, \<open>getTopUsers\<close> always returns a result,
  and \<open>getPopularPosts\<close> returns one whenever its own lookup of the owners' posts did not
  fail, with a count for every post of the merged view: no failure inside a batch aborts
  the batch, a later batch or the aggregation. An id whose request fails is counted 0 when
  no value is cached under its key: for a user id without a cached post count, that no
  posts are cached under \<open>parseInt(userId, 10)\<close> and no other id of the directory has
  that key; for a post without a cached comment count, that no comments are cached for it.
\<close>

theorem failed_lookup_counts_zero:
  assumes "getUsers s t0 r = (Inr us, s1, reqs1)"
  shows "(\<exists>topUsers s' reqs. getTopUsers s t0 t1 limit r = (Inr topUsers, s', reqs)) \<and>
    (userId \<in> set (map fst us) \<and> fetchPosts r userId = None \<and>
     \<not> has (postsCache s1) (parseInt10 userId) \<and> \<not> has (userPostCountCache s1) userId \<and>
     (\<forall>u\<in>set (map fst us). parseInt10 u = parseInt10 userId \<longrightarrow> u = userId) \<longrightarrow>
       map_of (fst (topUsers_postCounts s1 t1 (map fst us) r)) userId = Some 0 \<and>
       (\<forall>u\<in>set (topUsers_entries us (fst (topUsers_postCounts s1 t1 (map fst us) r))).
          user_id u = userId \<longrightarrow> postCount u = 0)) \<and>
    (ensureAllPosts s1 t1 (map fst us) r = (Inr v, s2, reqs2) \<and>
     countComments 0 (allPostsCache s2) clock r s2 [] = (counts, s3, reqs3) \<longrightarrow>
       (\<exists>popular. getPopularPosts s t0 t1 clock r = (Inr popular, s3, reqs1 @ reqs2 @ reqs3)) \<and>
       (\<forall>p\<in>set (allPostsCache s2). \<exists>c. map_of counts (post_id p) = Some c) \<and>
       (\<forall>p\<in>set (allPostsCache s2).
          fetchComments r (post_id p) = None \<and> \<not> has (postCommentCountCache s2) (post_id p) \<and>
          \<not> has (commentsCache s2) (post_id p) \<longrightarrow>
            map_of counts (post_id p) = Some 0))"
proof (intro conjI impI)
  show "\<exists>topUsers s' reqs. getTopUsers s t0 t1 limit r = (Inr topUsers, s', reqs)"
    using assms by (rule getTopUsers_returns)
next
  assume a: "userId \<in> set (map fst us) \<and> fetchPosts r userId = None \<and>
     \<not> has (postsCache s1) (parseInt10 userId) \<and> \<not> has (userPostCountCache s1) userId \<and>
     (\<forall>u\<in>set (map fst us). parseInt10 u = parseInt10 userId \<longrightarrow> u = userId)"
  then show zero: "map_of (fst (topUsers_postCounts s1 t1 (map fst us) r)) userId = Some 0"
    by (intro topUsers_postCounts_failing) blast+
  then show "\<forall>u\<in>set (topUsers_entries us (fst (topUsers_postCounts s1 t1 (map fst us) r))).
          user_id u = userId \<longrightarrow> postCount u = 0"
    by (rule topUsers_entries_count)
next
  assume b: "ensureAllPosts s1 t1 (map fst us) r = (Inr v, s2, reqs2) \<and>
     countComments 0 (allPostsCache s2) clock r s2 [] = (counts, s3, reqs3)"
  then have e: "ensureAllPosts s1 t1 (map fst us) r = (Inr v, s2, reqs2)"
    and c: "countComments 0 (allPostsCache s2) clock r s2 [] = (counts, s3, reqs3)"
    by simp_all
  show "\<exists>popular. getPopularPosts s t0 t1 clock r = (Inr popular, s3, reqs1 @ reqs2 @ reqs3)"
    using getPopularPosts_result [OF assms e c] by blast
  from countComments_keys [OF c]
  have keys: "fst ` set counts = post_id ` set (allPostsCache s2)"
    by simp
  show "\<forall>p\<in>set (allPostsCache s2). \<exists>c. map_of counts (post_id p) = Some c"
  proof
    fix p assume "p \<in> set (allPostsCache s2)"
    then have "post_id p \<in> fst ` set counts" using keys by simp
    then show "\<exists>c. map_of counts (post_id p) = Some c"
      by (metis map_of_eq_None_iff not_None_eq)
  qed
  show "\<forall>p\<in>set (allPostsCache s2).
          fetchComments r (post_id p) = None \<and> \<not> has (postCommentCountCache s2) (post_id p) \<and>
          \<not> has (commentsCache s2) (post_id p) \<longrightarrow>
            map_of counts (post_id p) = Some 0"
  proof (intro ballI impI)
    fix p
    assume p: "p \<in> set (allPostsCache s2)"
      and f: "fetchComments r (post_id p) = None \<and> \<not> has (postCommentCountCache s2) (post_id p) \<and>
          \<not> has (commentsCache s2) (post_id p)"
    from f have f1: "fetchComments r (post_id p) = None"
      and f2: "\<not> has (postCommentCountCache s2) (post_id p)"
      and f3: "\<not> has (commentsCache s2) (post_id p)"
      by simp_all
    from countComments_failing [OF f1 f2 f3 c] p
    show "map_of counts (post_id p) = Some 0" by simp
  qed
qed

theorem failed_lookup_counts_zero_witness:
  "fst (getTopUsers new_service 1000 1001 None annOnly) =
     Inr [\<lparr> user_id = ''1'', name = Some ''Ann'', postCount = 1 \<rparr>,
          \<lparr> user_id = ''2'', name = Some ''Bob'', postCount = 0 \<rparr>] \<and>
   map_of (fst (topUsers_postCounts (new_service\<lparr>usersCache := twoUsers, lastUsersFetch := 1000\<rparr>)
     1001 (map fst twoUsers) annOnly)) ''2'' = Some 0 \<and>
   getPopularPosts halfLoaded 2000 2001 (constClock 2002) annAndBob =
     (Inr [post7\<lparr>timestamp := Some 1001\<rparr>], halfLoaded, [ReqComments 7])"
proof -
  let ?s1 = "new_service\<lparr>usersCache := twoUsers, lastUsersFetch := 1000\<rparr>"
  have pre: "''2'' \<in> set (map fst twoUsers) \<and> fetchPosts annOnly ''2'' = None \<and>
     \<not> has (postsCache ?s1) (parseInt10 ''2'') \<and> \<not> has (userPostCountCache ?s1) ''2'' \<and>
     (\<forall>u\<in>set (map fst twoUsers). parseInt10 u = parseInt10 ''2'' \<longrightarrow> u = ''2'')"
    by (simp add: twoUsers_def annOnly_def has_def new_service_def parseInt10_1 parseInt10_2)
  note T = failed_lookup_counts_zero [OF twoUsers_first, where ?t1.0 = 1001 and limit = None
      and userId = "''2''"]
  from T pre
  have A: "map_of (fst (topUsers_postCounts ?s1 1001 (map fst twoUsers) annOnly)) ''2'' = Some 0"
    by blast
  have B: "fst (getTopUsers new_service 1000 1001 None annOnly) =
     Inr [\<lparr> user_id = ''1'', name = Some ''Ann'', postCount = 1 \<rparr>,
          \<lparr> user_id = ''2'', name = Some ''Bob'', postCount = 0 \<rparr>]"
    by (simp add: eval_defs new_service_def annOnly_def twoUsers_def post7_def)
  have e: "ensureAllPosts halfLoaded 2001 (map fst twoUsers) annAndBob = (Inr (), halfLoaded, [])"
    by (simp add: ensureAllPosts_def halfLoaded_def)
  have c: "countComments 0 (allPostsCache halfLoaded) (constClock 2002) annAndBob halfLoaded [] =
      ([(7, 0)], halfLoaded, [ReqComments 7])"
    by (simp add: eval_defs halfLoaded_def new_service_def annAndBob_def post7_def constClock_def)
  have p: "post7\<lparr>timestamp := Some 1001\<rparr> \<in> set (allPostsCache halfLoaded)"
    by (simp add: halfLoaded_def)
  have f: "fetchComments annAndBob (post_id (post7\<lparr>timestamp := Some 1001\<rparr>)) = None \<and>
      \<not> has (postCommentCountCache halfLoaded) (post_id (post7\<lparr>timestamp := Some 1001\<rparr>)) \<and>
      \<not> has (commentsCache halfLoaded) (post_id (post7\<lparr>timestamp := Some 1001\<rparr>))"
    by (simp add: annAndBob_def halfLoaded_def new_service_def has_def)
  note U = failed_lookup_counts_zero [OF halfLoaded_users, where ?t1.0 = 2001
      and clock = "constClock 2002" and v = "()" and ?s2.0 = halfLoaded and ?reqs2.0 = "[]"
      and counts = "[(7, 0)]" and ?s3.0 = halfLoaded and ?reqs3.0 = "[ReqComments 7]"]
  from U e c obtain popular where
    pop: "getPopularPosts halfLoaded 2000 2001 (constClock 2002) annAndBob =
      (Inr popular, halfLoaded, [] @ [] @ [ReqComments 7])"
    by blast
  from U e c p f have "map_of [(7, 0)] (post_id (post7\<lparr>timestamp := Some 1001\<rparr>)) = Some (0::nat)"
    by blast
  have C: "getPopularPosts halfLoaded 2000 2001 (constClock 2002) annAndBob =
     (Inr [post7\<lparr>timestamp := Some 1001\<rparr>], halfLoaded, [ReqComments 7])"
    using pop getPopularPosts_result [OF halfLoaded_users e c]
    by (simp add: halfLoaded_def post7_def maxCommentCount_def)
  from B A C show ?thesis by (intro conjI)
qed

end
